theory Spec2Isabelle
  imports Complex_Main "HOL-Library.Word" "HOL-Library.Multiset"
begin

unbundle bit_operations_syntax

section \<open>The BVH builder of lvr2 (include/lvr2/geometry/BVH.tcc)\<close>

text \<open>
  The embedding follows \<^verbatim>\<open>BVH.tcc\<close> function by function. A coordinate (\<^verbatim>\<open>float\<close> in the
  source) is a real number, and every operation of the source that rounds is taken from
  a parameter \<open>pf\<close> of the model (the record \<open>Platform\<close> below), so that a statement proved
  for every \<open>pf\<close> holds whatever the rounding is, as long as the results are finite
  numbers (an infinity or a NaN is no real number and is outside the model).
  Comparisons, minimum and maximum do not round and are those of the reals. The unsigned 32-bit words of the flat arrays are
  \<open>32 word\<close>, so that \<^verbatim>\<open>static_cast<uint32_t>\<close>, \<^verbatim>\<open>++idxBoxes\<close> and \<^verbatim>\<open>0x80000000 | count\<close>
  wrap and overlay as they do in the source. Container sizes (\<^verbatim>\<open>size_t\<close>) are natural
  numbers.
\<close>

type_synonym u32 = "32 word"

subsection \<open>Vectors and boxes\<close>

datatype Vec3 = Vec3 (vx: real) (vy: real) (vz: real)

text \<open>
  Modelled from the spec: BoundingBox (declared in a header outside the sources at hand).
  Spec 3: "min/max corner per axis; invariant: min \<le> max component-wise once valid; an
  invalid/empty state exists before any expansion. Mutated only by expansion (union with
  a point or another box)". The empty state is the flag \<open>valid = False\<close>; the corners an
  empty box reports are not fixed by the spec and are taken as the extreme finite floats.
\<close>

definition coord_max :: real where
  "coord_max = 340282346638528859811704183484516925440"

record BoundingBox =
  valid :: bool
  m_min :: Vec3
  m_max :: Vec3

definition BoundingBox_new :: BoundingBox where
  "BoundingBox_new = \<lparr>valid = False,
     m_min = Vec3 coord_max coord_max coord_max,
     m_max = Vec3 (- coord_max) (- coord_max) (- coord_max)\<rparr>"

definition isValid :: "BoundingBox \<Rightarrow> bool" where
  "isValid b = valid b"

definition getMin :: "BoundingBox \<Rightarrow> Vec3" where
  "getMin b = m_min b"

definition getMax :: "BoundingBox \<Rightarrow> Vec3" where
  "getMax b = m_max b"

definition expand_point :: "BoundingBox \<Rightarrow> Vec3 \<Rightarrow> BoundingBox" where
  "expand_point b p =
     (if valid b
      then \<lparr>valid = True,
            m_min = Vec3 (min (vx (m_min b)) (vx p)) (min (vy (m_min b)) (vy p)) (min (vz (m_min b)) (vz p)),
            m_max = Vec3 (max (vx (m_max b)) (vx p)) (max (vy (m_max b)) (vy p)) (max (vz (m_max b)) (vz p))\<rparr>
      else \<lparr>valid = True, m_min = p, m_max = p\<rparr>)"

definition expand_box :: "BoundingBox \<Rightarrow> BoundingBox \<Rightarrow> BoundingBox" where
  "expand_box b c =
     (if \<not> valid c then b
      else if \<not> valid b then c
      else \<lparr>valid = True,
            m_min = Vec3 (min (vx (m_min b)) (vx (m_min c))) (min (vy (m_min b)) (vy (m_min c)))
                         (min (vz (m_min b)) (vz (m_min c))),
            m_max = Vec3 (max (vx (m_max b)) (vx (m_max c))) (max (vy (m_max b)) (vy (m_max c)))
                         (max (vz (m_max b)) (vz (m_max c)))\<rparr>)"

subsection \<open>Triangles, work items, nodes and the members of the tree object\<close>

text \<open>
  \<^verbatim>\<open>Triangle\<close> (fields carry the prefix \<open>tri_\<close>), the work item \<^verbatim>\<open>AABB\<close>, and the node
  classes \<^verbatim>\<open>BVHLeaf\<close> and \<^verbatim>\<open>BVHInner\<close> (both derive from \<^verbatim>\<open>BVHNode\<close>, which holds \<^verbatim>\<open>bb\<close>).
  A leaf's \<^verbatim>\<open>triangles\<close> and a work item's \<^verbatim>\<open>triangle\<close> are positions in \<^verbatim>\<open>m_triangles\<close>.
\<close>

record Triangle =
  tri_idx1 :: u32
  tri_idx2 :: u32
  tri_idx3 :: u32
  tri_center :: Vec3
  tri_normal :: Vec3
  tri_d :: real
  tri_d1 :: real
  tri_d2 :: real
  tri_d3 :: real
  tri_e1 :: Vec3
  tri_e2 :: Vec3
  tri_e3 :: Vec3
  tri_bb :: BoundingBox

record AABB =
  bb :: BoundingBox
  triangle :: nat

datatype BVHNode =
    BVHLeaf (node_bb: BoundingBox) (triangles: "nat list")
  | BVHInner (node_bb: BoundingBox) (left: BVHNode) (right: BVHNode)

text \<open>
  The members of \<^verbatim>\<open>BVHTree\<close>. \<^verbatim>\<open>m_root\<close> is not a field: \<^verbatim>\<open>buildTree\<close> returns the root and
  \<^verbatim>\<open>createCFTree\<close> consumes it.
\<close>

record BVHTree =
  m_triangles :: "Triangle list"
  m_depth :: u32
  m_limits :: "real list"
  m_indexesOrTrilists :: "u32 list"
  m_triIndexList :: "u32 list"
  m_trianglesIntersectionData :: "real list"

definition BVHTree_new :: BVHTree where
  "BVHTree_new = \<lparr>m_triangles = [], m_depth = 0, m_limits = [], m_indexesOrTrilists = [],
     m_triIndexList = [], m_trianglesIntersectionData = []\<rparr>"

subsection \<open>What the source leaves to the platform\<close>

text \<open>
  The operations that round, and the order \<^verbatim>\<open>std::partition\<close> leaves open, as a parameter
  of the model. The vector class (BaseVector, Normal) and BoundingBox are declared in
  headers outside the sources at hand: their computing members are the fields \<open>vsub\<close>
  (\<^verbatim>\<open>a - b\<close>), \<open>vadd\<close> (\<^verbatim>\<open>a + b\<close>), \<open>vdiv\<close> (\<^verbatim>\<open>a / s\<close>), \<open>cross\<close>, \<open>dot\<close>, \<open>vlength\<close>
  (\<^verbatim>\<open>length()\<close>), \<open>Normal\<close> (the constructor of a normal from a vector) and \<open>getCentroid\<close>,
  \<open>getXSize\<close>, \<open>getYSize\<close>, \<open>getZSize\<close>. The float arithmetic \<^verbatim>\<open>BVH.tcc\<close> does itself is
  \<open>fadd\<close>, \<open>fsub\<close>, \<open>fmul\<close>, \<open>fdiv\<close>, \<open>ffloor\<close> (\<^verbatim>\<open>std::floor\<close> followed by the conversion to
  \<^verbatim>\<open>int\<close> that \<^verbatim>\<open>std::clamp<int>\<close> makes) and \<open>fofint\<close> (the conversion of an integer to
  \<^verbatim>\<open>float\<close>). \<open>part_order\<close> is the way the library's \<^verbatim>\<open>std::partition\<close> arranges a slice.
\<close>

record Platform =
  vsub :: "Vec3 \<Rightarrow> Vec3 \<Rightarrow> Vec3"
  vadd :: "Vec3 \<Rightarrow> Vec3 \<Rightarrow> Vec3"
  vdiv :: "Vec3 \<Rightarrow> real \<Rightarrow> Vec3"
  cross :: "Vec3 \<Rightarrow> Vec3 \<Rightarrow> Vec3"
  dot :: "Vec3 \<Rightarrow> Vec3 \<Rightarrow> real"
  vlength :: "Vec3 \<Rightarrow> real"
  Normal :: "Vec3 \<Rightarrow> Vec3"
  getCentroid :: "BoundingBox \<Rightarrow> Vec3"
  getXSize :: "BoundingBox \<Rightarrow> real"
  getYSize :: "BoundingBox \<Rightarrow> real"
  getZSize :: "BoundingBox \<Rightarrow> real"
  fadd :: "real \<Rightarrow> real \<Rightarrow> real"
  fsub :: "real \<Rightarrow> real \<Rightarrow> real"
  fmul :: "real \<Rightarrow> real \<Rightarrow> real"
  fdiv :: "real \<Rightarrow> real \<Rightarrow> real"
  ffloor :: "real \<Rightarrow> int"
  fofint :: "int \<Rightarrow> real"
  part_order :: "(AABB \<Rightarrow> bool) \<Rightarrow> AABB list \<Rightarrow> AABB list \<times> AABB list"

text \<open>The Euclidean length of a vector.\<close>

definition euclid :: "Vec3 \<Rightarrow> real" where
  "euclid a = sqrt (vx a * vx a + vy a * vy a + vz a * vz a)"

text \<open>
  Modelled from the spec: the platform without rounding, one value of the parameter.
  The vector operations are the usual ones, \<open>Normal\<close> scales to unit length (spec 4.1:
  "normalize it to unit length"; the zero vector stays as it is), the centroid of a box is
  the midpoint of its corners and its sizes are the corner differences. Its partition
  keeps the order of the slice in both parts.
\<close>

definition exact :: Platform where
  "exact = \<lparr>
     vsub = (\<lambda>a b. Vec3 (vx a - vx b) (vy a - vy b) (vz a - vz b)),
     vadd = (\<lambda>a b. Vec3 (vx a + vx b) (vy a + vy b) (vz a + vz b)),
     vdiv = (\<lambda>a s. Vec3 (vx a / s) (vy a / s) (vz a / s)),
     cross = (\<lambda>a b. Vec3 (vy a * vz b - vz a * vy b) (vz a * vx b - vx a * vz b) (vx a * vy b - vy a * vx b)),
     dot = (\<lambda>a b. vx a * vx b + vy a * vy b + vz a * vz b),
     vlength = euclid,
     Normal = (\<lambda>a. if euclid a = 0 then a
                    else Vec3 (vx a / euclid a) (vy a / euclid a) (vz a / euclid a)),
     getCentroid = (\<lambda>b. Vec3 ((vx (m_min b) + vx (m_max b)) / 2)
                            ((vy (m_min b) + vy (m_max b)) / 2)
                            ((vz (m_min b) + vz (m_max b)) / 2)),
     getXSize = (\<lambda>b. vx (m_max b) - vx (m_min b)),
     getYSize = (\<lambda>b. vy (m_max b) - vy (m_min b)),
     getZSize = (\<lambda>b. vz (m_max b) - vz (m_min b)),
     fadd = (\<lambda>x y. x + y),
     fsub = (\<lambda>x y. x - y),
     fmul = (\<lambda>x y. x * y),
     fdiv = (\<lambda>x y. x / y),
     ffloor = (\<lambda>x. \<lfloor>x\<rfloor>),
     fofint = (\<lambda>k. real_of_int k),
     part_order = partition\<rparr>"

subsection \<open>buildTree: the loop over the faces\<close>

text \<open>
  Reading \<^verbatim>\<open>vertices\<close> or \<^verbatim>\<open>faces\<close> out of range is undefined behaviour in the source;
  the model returns \<open>OutOfRange\<close> there. \<^verbatim>\<open>faces[i]*3\<close>, \<^verbatim>\<open>faces[i]*3+1\<close> are computed in
  \<^verbatim>\<open>unsigned int\<close> and wrap.
\<close>

datatype error = OutOfRange

definition vertex_at :: "real list \<Rightarrow> u32 \<Rightarrow> Vec3 option" where
  "vertex_at vertices f =
     (let ix = unat (f * 3); iy = unat (f * 3 + 1); iz = unat (f * 3 + 2)
      in if ix < length vertices \<and> iy < length vertices \<and> iz < length vertices
         then Some (Vec3 (vertices ! ix) (vertices ! iy) (vertices ! iz))
         else None)"

record BuildState =
  this :: BVHTree
  work :: "AABB list"
  outerBb :: BoundingBox

text \<open>
  The body of the loop for the face \<open>(f1, f2, f3)\<close> with corners \<open>point1\<close>, \<open>point2\<close>,
  \<open>point3\<close>. The two overloads of \<^verbatim>\<open>buildTree\<close> (vectors, and arrays with a face count)
  have the same body. \<open>make_triangle\<close> is the part of the body that fills the
  \<^verbatim>\<open>Triangle\<close> ("Create triangles from faces for internal usage" to \<^verbatim>\<open>triangle.d3\<close>);
  \<open>face_step\<close> is the body around it.
\<close>

definition make_triangle :: "Platform \<Rightarrow> u32 \<Rightarrow> u32 \<Rightarrow> u32 \<Rightarrow> Vec3 \<Rightarrow> Vec3 \<Rightarrow> Vec3 \<Rightarrow> BoundingBox \<Rightarrow> Triangle" where
  "make_triangle pf f1 f2 f3 point1 point2 point3 faceBb =
     (let vc1 = vsub pf point2 point1;
          vc2 = vsub pf point3 point2;
          vc3 = vsub pf point1 point3;
          cross1 = cross pf vc1 vc2;
          cross2 = cross pf vc2 vc3;
          cross3 = cross pf vc3 vc1;
          normal1 = Normal pf cross1;
          normal2 = Normal pf cross2;
          normal3 = Normal pf cross3;
          bestNormal = normal1;
          bestNormal = (if vlength pf normal2 > vlength pf bestNormal then normal2 else bestNormal);
          bestNormal = (if vlength pf normal3 > vlength pf bestNormal then normal3 else bestNormal);
          n = bestNormal;
          e1 = Normal pf (cross pf n vc1);
          e2 = Normal pf (cross pf n vc2);
          e3 = Normal pf (cross pf n vc3)
      in \<lparr>tri_idx1 = f1, tri_idx2 = f2, tri_idx3 = f3,
          tri_center = vdiv pf (vadd pf (vadd pf point1 point2) point3) 3,
          tri_normal = n,
          tri_d = dot pf n point1,
          tri_d1 = dot pf e1 point1, tri_d2 = dot pf e2 point2, tri_d3 = dot pf e3 point3,
          tri_e1 = e1, tri_e2 = e2, tri_e3 = e3,
          tri_bb = faceBb\<rparr>)"

definition face_step :: "Platform \<Rightarrow> u32 \<Rightarrow> u32 \<Rightarrow> u32 \<Rightarrow> Vec3 \<Rightarrow> Vec3 \<Rightarrow> Vec3 \<Rightarrow> BuildState \<Rightarrow> BuildState" where
  "face_step pf f1 f2 f3 point1 point2 point3 s =
     (let vc1 = vsub pf point2 point1;
          vc2 = vsub pf point3 point2;
          vc3 = vsub pf point1 point3;
          cross1 = cross pf vc1 vc2;
          cross2 = cross pf vc2 vc3;
          cross3 = cross pf vc3 vc1
      in if vlength pf cross1 = 0 \<or> vlength pf cross2 = 0 \<or> vlength pf cross3 = 0 then s
         else
           let faceBb = expand_point (expand_point (expand_point BoundingBox_new point1) point2) point3;
               triangle = make_triangle pf f1 f2 f3 point1 point2 point3 faceBb;
               aabb = \<lparr>bb = faceBb, triangle = length (m_triangles (this s))\<rparr>
           in s\<lparr>this := (this s)\<lparr>m_triangles := m_triangles (this s) @ [triangle]\<rparr>,
                outerBb := expand_box (outerBb s) faceBb,
                work := work s @ [aabb]\<rparr>)"

fun buildTree_loop :: "Platform \<Rightarrow> real list \<Rightarrow> u32 list \<Rightarrow> BuildState \<Rightarrow> error + BuildState" where
  "buildTree_loop pf vertices (f1 # f2 # f3 # faces) s =
     (case vertex_at vertices f1 of None \<Rightarrow> Inl OutOfRange | Some point1 \<Rightarrow>
      case vertex_at vertices f2 of None \<Rightarrow> Inl OutOfRange | Some point2 \<Rightarrow>
      case vertex_at vertices f3 of None \<Rightarrow> Inl OutOfRange | Some point3 \<Rightarrow>
        buildTree_loop pf vertices faces (face_step pf f1 f2 f3 point1 point2 point3 s))"
| "buildTree_loop pf vertices [] s = Inr s"
| "buildTree_loop pf vertices fs s = Inl OutOfRange"

subsection \<open>buildTreeRecursive\<close>

text \<open>
  The bucket counters are \<^verbatim>\<open>int\<close> in the source; they are signed 32-bit words here, read
  with \<open>sint\<close>, so that a counter that passed \<open>2^31 - 1\<close> wraps (the source leaves that
  undefined). Loop indices and \<^verbatim>\<open>bestAxis\<close>, \<^verbatim>\<open>bestSplitIdx\<close> stay far from any bound.
\<close>

type_synonym i32 = "32 word"

definition BUCKETS :: nat where
  "BUCKETS = 32"

definition clamp :: "int \<Rightarrow> int \<Rightarrow> int \<Rightarrow> int" where
  "clamp v lo hi = (if v < lo then lo else if hi < v then hi else v)"

definition axis_coord :: "int \<Rightarrow> Vec3 \<Rightarrow> real" where
  "axis_coord axis v = (if axis = 0 then vx v else if axis = 1 then vy v else vz v)"

text \<open>\<^verbatim>\<open>bb.getXSize() * bb.getYSize() + bb.getYSize() * bb.getZSize() + bb.getZSize() * bb.getXSize()\<close>\<close>

definition surface :: "Platform \<Rightarrow> BoundingBox \<Rightarrow> real" where
  "surface pf b =
     fadd pf (fadd pf (fmul pf (getXSize pf b) (getYSize pf b)) (fmul pf (getYSize pf b) (getZSize pf b)))
             (fmul pf (getZSize pf b) (getXSize pf b))"

text \<open>\<^verbatim>\<open>std::clamp<int>(std::floor((value - start) * (BUCKETS) / range), 0, BUCKETS - 1)\<close>\<close>

definition bucket_index :: "Platform \<Rightarrow> real \<Rightarrow> real \<Rightarrow> real \<Rightarrow> int" where
  "bucket_index pf val start rng =
     clamp (ffloor pf (fdiv pf (fmul pf (fsub pf val start) (fofint pf (int BUCKETS))) rng)) 0 (int BUCKETS - 1)"

text \<open>"Sort bbs into buckets": one step of the loop over the slice.\<close>

definition bucket_step :: "Platform \<Rightarrow> int \<Rightarrow> real \<Rightarrow> real \<Rightarrow> AABB \<Rightarrow> BoundingBox list \<times> i32 list
    \<Rightarrow> BoundingBox list \<times> i32 list" where
  "bucket_step pf axis start rng v bc =
     (case bc of (buckets, counts) \<Rightarrow>
        let val = axis_coord axis (getCentroid pf (bb v));
            index = nat (bucket_index pf val start rng)
        in (buckets[index := expand_box (buckets ! index) (bb v)],
            counts[index := counts ! index + 1]))"

text \<open>One step of the loops over \<open>j\<close> that gather a side of the split.\<close>

definition side_step :: "BoundingBox list \<Rightarrow> i32 list \<Rightarrow> nat \<Rightarrow> BoundingBox \<times> i32 \<Rightarrow> BoundingBox \<times> i32" where
  "side_step buckets counts j bc =
     (case bc of (b, c) \<Rightarrow>
        if \<not> isValid (buckets ! j) then (b, c)
        else (expand_box b (buckets ! j), c + counts ! j))"

text \<open>The body of "Check all split positions" for the position \<open>i\<close>; the state is
  \<open>(minCost, bestSplitIdx, bestAxis)\<close>.\<close>

definition split_step :: "Platform \<Rightarrow> BoundingBox list \<Rightarrow> i32 list \<Rightarrow> int \<Rightarrow> nat \<Rightarrow> real \<times> int \<times> int \<Rightarrow> real \<times> int \<times> int" where
  "split_step pf buckets counts axis i st =
     (case st of (minCost, bestSplitIdx, bestAxis) \<Rightarrow>
        case fold (side_step buckets counts) [0..<i] (BoundingBox_new, 0) of (lBb, countLeft) \<Rightarrow>
        case fold (side_step buckets counts) [i..<BUCKETS] (BoundingBox_new, 0) of (rBb, countRight) \<Rightarrow>
          if sint countLeft \<le> 1 \<or> sint countRight \<le> 1 \<or> \<not> isValid lBb \<or> \<not> isValid rBb
          then (minCost, bestSplitIdx, bestAxis)
          else
            let surfaceLeft = surface pf lBb;
                surfaceRight = surface pf rBb;
                totalCost = fadd pf (fmul pf surfaceLeft (fofint pf (sint countLeft)))
                                    (fmul pf surfaceRight (fofint pf (sint countRight)))
            in if totalCost < minCost then (totalCost, int i, axis)
               else (minCost, bestSplitIdx, bestAxis))"

text \<open>
  The body of the loop over the three axes. \<^verbatim>\<open>fabs\<close> does not round; the bound \<^verbatim>\<open>1e-4\<close> is
  a \<^verbatim>\<open>double\<close>, and no \<^verbatim>\<open>float\<close> lies between it and \<open>1/10000\<close>.
\<close>

definition axis_step :: "Platform \<Rightarrow> BoundingBox \<Rightarrow> AABB list \<Rightarrow> int \<Rightarrow> real \<times> int \<times> int \<Rightarrow> real \<times> int \<times> int" where
  "axis_step pf b wk axis st =
     (let start = axis_coord axis (getMin b);
          stop = axis_coord axis (getMax b)
      in if \<bar>fsub pf stop start\<bar> < 1 / 10000 then st
         else
           let rng = fsub pf stop start;
               (buckets, counts) = fold (bucket_step pf axis start rng) wk
                  (replicate BUCKETS BoundingBox_new, replicate BUCKETS 0)
           in fold (split_step pf buckets counts axis) [1..<BUCKETS] st)"

text \<open>The bounding box of the slice, and the search for the best split.\<close>

definition slice_bb :: "AABB list \<Rightarrow> BoundingBox" where
  "slice_bb wk = fold (\<lambda>it b. expand_box b (bb it)) wk BoundingBox_new"

definition find_split :: "Platform \<Rightarrow> BoundingBox \<Rightarrow> AABB list \<Rightarrow> real \<times> int \<times> int" where
  "find_split pf b wk =
     (let minCost = fmul pf (fofint pf (int (length wk))) (surface pf b)
      in fold (axis_step pf b wk) [0, 1, 2] (minCost, - 1, - 1))"

text \<open>The predicate handed to \<^verbatim>\<open>std::partition\<close>.\<close>

definition pred :: "Platform \<Rightarrow> BoundingBox \<Rightarrow> int \<Rightarrow> int \<Rightarrow> AABB \<Rightarrow> bool" where
  "pred pf b bestAxis bestSplitIdx a =
     (let rng = fsub pf (axis_coord bestAxis (getMax b)) (axis_coord bestAxis (getMin b));
          start = axis_coord bestAxis (getMin b);
          val = axis_coord bestAxis (getCentroid pf (bb a))
      in bucket_index pf val start rng < bestSplitIdx)"

text \<open>
  \<^verbatim>\<open>std::partition\<close> puts the items that satisfy the predicate before the others and
  returns the boundary; the order inside each part is left open by the standard. The
  two parts are those \<open>part_order\<close> gives when they hold the right items, so that every
  value of the parameter is a partition the standard allows; otherwise they are the parts
  in the order of the slice.
\<close>

definition std_partition :: "Platform \<Rightarrow> (AABB \<Rightarrow> bool) \<Rightarrow> AABB list \<Rightarrow> AABB list \<times> AABB list" where
  "std_partition pf P wk =
     (case part_order pf P wk of (wl, wr) \<Rightarrow>
        if mset wl = mset (filter P wk) \<and> mset wr = mset (filter (Not \<circ> P) wk) then (wl, wr)
        else partition P wk)"

text \<open>\<^verbatim>\<open>m_depth\<close> is threaded through the two recursive calls, the left one first.\<close>

function buildTreeRecursive :: "Platform \<Rightarrow> AABB list \<Rightarrow> u32 \<Rightarrow> u32 \<Rightarrow> BVHNode \<times> u32" where
  "buildTreeRecursive pf wk depth mdepth =
     (let b = slice_bb wk
      in if length wk \<le> 4 then (BVHLeaf b (map triangle wk), max mdepth depth)
         else
           case find_split pf b wk of (minCost, bestSplitIdx, bestAxis) \<Rightarrow>
             if bestAxis = - 1 then (BVHLeaf b (map triangle wk), max mdepth depth)
             else
               case std_partition pf (pred pf b bestAxis bestSplitIdx) wk of (wl, wr) \<Rightarrow>
               case buildTreeRecursive pf wl (depth + 1) mdepth of (l, mdepth1) \<Rightarrow>
               case buildTreeRecursive pf wr (depth + 1) mdepth1 of (r, mdepth2) \<Rightarrow>
                 (BVHInner b l r, mdepth2))"
  by pat_completeness auto

subsection \<open>buildTree\<close>

text \<open>\<^verbatim>\<open>out->bb = outerBb\<close>\<close>

definition set_bb :: "BoundingBox \<Rightarrow> BVHNode \<Rightarrow> BVHNode" where
  "set_bb b n = (case n of BVHLeaf c ts \<Rightarrow> BVHLeaf b ts | BVHInner c l r \<Rightarrow> BVHInner b l r)"

text \<open>
  \<^verbatim>\<open>buildTree\<close> on the tree object \<open>t\<close>: the loop fills \<^verbatim>\<open>m_triangles\<close>, \<^verbatim>\<open>work\<close> and
  \<^verbatim>\<open>outerBb\<close>, then \<^verbatim>\<open>buildTreeRecursive(work.begin(), work.end())\<close> runs at depth 0.
\<close>

definition buildTree :: "Platform \<Rightarrow> real list \<Rightarrow> u32 list \<Rightarrow> BVHTree \<Rightarrow> error + (BVHNode \<times> BVHTree)" where
  "buildTree pf vertices faces t =
     (case buildTree_loop pf vertices faces \<lparr>this = t, work = [], outerBb = BoundingBox_new\<rparr> of
        Inl e \<Rightarrow> Inl e
      | Inr s \<Rightarrow>
          (case buildTreeRecursive pf (work s) 0 (m_depth (this s)) of
             (out, mdepth) \<Rightarrow> Inr (set_bb (outerBb s) out, (this s)\<lparr>m_depth := mdepth\<rparr>)))"

subsection \<open>createCFTree\<close>

definition push_limits :: "BoundingBox \<Rightarrow> BVHTree \<Rightarrow> BVHTree" where
  "push_limits b s = s\<lparr>m_limits := m_limits s @
     [vx (getMin b), vx (getMax b), vy (getMin b), vy (getMax b), vz (getMin b), vz (getMax b)]\<rparr>"

definition push_word :: "u32 \<Rightarrow> BVHTree \<Rightarrow> BVHTree" where
  "push_word w s = s\<lparr>m_indexesOrTrilists := m_indexesOrTrilists s @ [w]\<rparr>"

text \<open>
  \<^verbatim>\<open>createCFTreeRecursive(currentNode, idxBoxes)\<close>: the members it appends to are in the
  tree object \<open>s\<close>; the counter, passed by reference, is returned with it.
\<close>

fun createCFTreeRecursive :: "BVHNode \<Rightarrow> BVHTree \<Rightarrow> u32 \<Rightarrow> BVHTree \<times> u32" where
  "createCFTreeRecursive (BVHInner b l r) s idxBoxes =
     (let s1 = push_limits b s;
          s2 = push_word 0 s1;
          indexesOrTrilistsPos = length (m_indexesOrTrilists s2);
          s3 = push_word 0 (push_word 0 s2);
          s4 = push_word 0 s3;
          idxLeft = idxBoxes + 1;
          (s5, idx5) = createCFTreeRecursive l s4 idxLeft;
          idxRight = idx5 + 1;
          (s6, idx6) = createCFTreeRecursive r s5 idxRight
      in (s6\<lparr>m_indexesOrTrilists :=
               (m_indexesOrTrilists s6)[indexesOrTrilistsPos := idxLeft,
                                        indexesOrTrilistsPos + 1 := idxRight]\<rparr>, idx6))"
| "createCFTreeRecursive (BVHLeaf b ts) s idxBoxes =
     (let s1 = push_limits b s;
          count = (of_nat (length ts) :: u32);
          s2 = push_word (0x80000000 OR count) s1;
          s3 = push_word 0 (push_word 0 s2);
          s4 = push_word (of_nat (length (m_triIndexList s3))) s3
      in (s4\<lparr>m_triIndexList := m_triIndexList s4 @ map of_nat ts\<rparr>, idxBoxes))"

text \<open>The sixteen floats \<^verbatim>\<open>convertTrianglesIntersectionData\<close> pushes for one triangle.\<close>

definition push_triangle :: "Triangle \<Rightarrow> real list \<Rightarrow> real list" where
  "push_triangle tr dat = dat @
     [vx (tri_normal tr), vy (tri_normal tr), vz (tri_normal tr), tri_d tr,
      vx (tri_e1 tr), vy (tri_e1 tr), vz (tri_e1 tr), tri_d1 tr,
      vx (tri_e2 tr), vy (tri_e2 tr), vz (tri_e2 tr), tri_d2 tr,
      vx (tri_e3 tr), vy (tri_e3 tr), vz (tri_e3 tr), tri_d3 tr]"

definition convertTrianglesIntersectionData :: "BVHTree \<Rightarrow> BVHTree" where
  "convertTrianglesIntersectionData t =
     t\<lparr>m_trianglesIntersectionData := fold push_triangle (m_triangles t) (m_trianglesIntersectionData t)\<rparr>"

definition createCFTree :: "BVHNode \<Rightarrow> BVHTree \<Rightarrow> BVHTree" where
  "createCFTree m_root t =
     (let idxBoxes = 0;
          (t1, idxBoxes1) = createCFTreeRecursive m_root t idxBoxes
      in convertTrianglesIntersectionData t1)"

text \<open>The constructor \<^verbatim>\<open>BVHTree(vertices, faces)\<close>: \<^verbatim>\<open>m_depth(0)\<close>, the other members empty.\<close>

definition BVHTree_ctor :: "Platform \<Rightarrow> real list \<Rightarrow> u32 list \<Rightarrow> error + BVHTree" where
  "BVHTree_ctor pf vertices faces =
     (case buildTree pf vertices faces BVHTree_new of
        Inl e \<Rightarrow> Inl e
      | Inr (m_root, t) \<Rightarrow> Inr (createCFTree m_root t))"

definition getMaxDepth :: "BVHTree \<Rightarrow> u32" where
  "getMaxDepth t = m_depth t"

section \<open>Notions the properties are stated with\<close>

text \<open>
  The nodes of a tree in depth-first pre-order (a node, its left subtree, its right
  subtree); position \<open>k\<close> of this list is the node with flat index \<open>k\<close>.
\<close>

fun num_nodes :: "BVHNode \<Rightarrow> nat" where
  "num_nodes (BVHLeaf b ts) = 1"
| "num_nodes (BVHInner b l r) = 1 + num_nodes l + num_nodes r"

fun preorder :: "BVHNode \<Rightarrow> BVHNode list" where
  "preorder (BVHLeaf b ts) = [BVHLeaf b ts]"
| "preorder (BVHInner b l r) = BVHInner b l r # preorder l @ preorder r"

text \<open>The triangle indices of the leaves, in leaf-visitation order.\<close>

fun tri_list :: "BVHNode \<Rightarrow> nat list" where
  "tri_list (BVHLeaf b ts) = ts"
| "tri_list (BVHInner b l r) = tri_list l @ tri_list r"

definition box_limits :: "BoundingBox \<Rightarrow> real list" where
  "box_limits b = [vx (getMin b), vx (getMax b), vy (getMin b), vy (getMax b), vz (getMin b), vz (getMax b)]"

fun flat_limits :: "BVHNode \<Rightarrow> real list" where
  "flat_limits (BVHLeaf b ts) = box_limits b"
| "flat_limits (BVHInner b l r) = box_limits b @ flat_limits l @ flat_limits r"

text \<open>
  The four words of every node, for a subtree whose root has flat index \<open>i\<close> and whose
  first triangle goes to offset \<open>off\<close> of the triangle-index list.
\<close>

fun flat_words :: "nat \<Rightarrow> nat \<Rightarrow> BVHNode \<Rightarrow> u32 list" where
  "flat_words i off (BVHLeaf b ts) = [0x80000000 OR of_nat (length ts), 0, 0, of_nat off]"
| "flat_words i off (BVHInner b l r) =
     [0, of_nat (i + 1), of_nat (i + 1 + num_nodes l), 0]
     @ flat_words (i + 1) off l
     @ flat_words (i + 1 + num_nodes l) (off + length (tri_list l)) r"

text \<open>
  The triangles a node holds itself, the offset in the triangle-index list that the
  node at flat index \<open>k\<close> starts at (the triangles of the leaves before it), and the
  four words of the node with flat index \<open>k\<close>.
\<close>

definition own_triangles :: "BVHNode \<Rightarrow> nat list" where
  "own_triangles n = (case n of BVHLeaf b ts \<Rightarrow> ts | BVHInner b l r \<Rightarrow> [])"

definition tri_offset :: "BVHNode \<Rightarrow> nat \<Rightarrow> nat" where
  "tri_offset t k = length (concat (map own_triangles (take k (preorder t))))"

fun node_words :: "nat \<Rightarrow> nat \<Rightarrow> BVHNode \<Rightarrow> u32 list" where
  "node_words k off (BVHLeaf b ts) = [0x80000000 OR of_nat (length ts), 0, 0, of_nat off]"
| "node_words k off (BVHInner b l r) = [0, of_nat (k + 1), of_nat (k + 1 + num_nodes l), 0]"

text \<open>The bucket an item falls into on an axis, as \<^verbatim>\<open>buildTreeRecursive\<close> computes it twice.\<close>

definition item_index :: "Platform \<Rightarrow> int \<Rightarrow> real \<Rightarrow> real \<Rightarrow> AABB \<Rightarrow> int" where
  "item_index pf axis start rng a = bucket_index pf (axis_coord axis (getCentroid pf (bb a))) start rng"

text \<open>A search state is good when it holds no split or one that leaves both sides inhabited.\<close>

definition good_split :: "Platform \<Rightarrow> BoundingBox \<Rightarrow> AABB list \<Rightarrow> real \<times> int \<times> int \<Rightarrow> bool" where
  "good_split pf b wk st = (case st of (minCost, bestSplitIdx, bestAxis) \<Rightarrow>
     bestAxis = - 1 \<or> ((\<exists>a \<in> set wk. pred pf b bestAxis bestSplitIdx a) \<and> (\<exists>a \<in> set wk. \<not> pred pf b bestAxis bestSplitIdx a)))"

text \<open>The record of sixteen floats of one triangle, and a tree object whose arrays are
  still empty (as the constructor leaves them before \<^verbatim>\<open>createCFTree\<close>).\<close>

definition triangle_record :: "Triangle \<Rightarrow> real list" where
  "triangle_record tr =
     [vx (tri_normal tr), vy (tri_normal tr), vz (tri_normal tr), tri_d tr,
      vx (tri_e1 tr), vy (tri_e1 tr), vz (tri_e1 tr), tri_d1 tr,
      vx (tri_e2 tr), vy (tri_e2 tr), vz (tri_e2 tr), tri_d2 tr,
      vx (tri_e3 tr), vy (tri_e3 tr), vz (tri_e3 tr), tri_d3 tr]"

definition fresh :: "BVHTree \<Rightarrow> bool" where
  "fresh t = (m_limits t = [] \<and> m_indexesOrTrilists t = [] \<and> m_triIndexList t = []
     \<and> m_trianglesIntersectionData t = [])"

text \<open>
  What \<^verbatim>\<open>buildTreeRecursive\<close> makes of a slice: a leaf with the box and all the triangle
  indices of the slice, or an inner node with the box of the slice over two trees made of
  two inhabited parts of the slice.
\<close>

inductive covers :: "AABB list \<Rightarrow> BVHNode \<Rightarrow> bool" where
  leaf: "covers wk (BVHLeaf (slice_bb wk) (map triangle wk))"
| inner: "wl \<noteq> [] \<Longrightarrow> wr \<noteq> [] \<Longrightarrow> mset wk = mset wl + mset wr \<Longrightarrow> covers wl l \<Longrightarrow> covers wr r
    \<Longrightarrow> covers wk (BVHInner (slice_bb wk) l r)"

text \<open>Every leaf of the tree holds at least one triangle index.\<close>

fun leaves_inhabited :: "BVHNode \<Rightarrow> bool" where
  "leaves_inhabited (BVHLeaf b ts) = (ts \<noteq> [])"
| "leaves_inhabited (BVHInner b l r) = (leaves_inhabited l \<and> leaves_inhabited r)"

text \<open>
  A mesh is well formed when the face list holds three indices per face and every index
  addresses a vertex; \<open>face_list\<close> groups the indices by face. A face is degenerate when
  one of its three edge-pair cross products has zero length, each computed as the source
  computes it, with the platform's subtraction, cross product and length: \<open>degenerate\<close> is
  the test \<^verbatim>\<open>cross1.length() == 0 || cross2.length() == 0 || cross3.length() == 0\<close> of the
  source, not collinearity of the three points.
\<close>

definition wf_mesh :: "real list \<Rightarrow> u32 list \<Rightarrow> bool" where
  "wf_mesh vertices faces = (length faces mod 3 = 0 \<and> list_all (\<lambda>f. vertex_at vertices f \<noteq> None) faces)"

fun face_list :: "u32 list \<Rightarrow> (u32 \<times> u32 \<times> u32) list" where
  "face_list (f1 # f2 # f3 # faces) = (f1, f2, f3) # face_list faces"
| "face_list fs = []"

definition degenerate :: "Platform \<Rightarrow> Vec3 \<Rightarrow> Vec3 \<Rightarrow> Vec3 \<Rightarrow> bool" where
  "degenerate pf point1 point2 point3 =
     (vlength pf (cross pf (vsub pf point2 point1) (vsub pf point3 point2)) = 0
    \<or> vlength pf (cross pf (vsub pf point3 point2) (vsub pf point1 point3)) = 0
    \<or> vlength pf (cross pf (vsub pf point1 point3) (vsub pf point2 point1)) = 0)"

definition degenerate_face :: "Platform \<Rightarrow> real list \<Rightarrow> u32 \<times> u32 \<times> u32 \<Rightarrow> bool" where
  "degenerate_face pf vertices f = (case f of (f1, f2, f3) \<Rightarrow>
     (case vertex_at vertices f1 of None \<Rightarrow> False | Some point1 \<Rightarrow>
      case vertex_at vertices f2 of None \<Rightarrow> False | Some point2 \<Rightarrow>
      case vertex_at vertices f3 of None \<Rightarrow> False | Some point3 \<Rightarrow>
        degenerate pf point1 point2 point3))"

definition face_bb :: "Vec3 \<Rightarrow> Vec3 \<Rightarrow> Vec3 \<Rightarrow> BoundingBox" where
  "face_bb point1 point2 point3 =
     expand_point (expand_point (expand_point BoundingBox_new point1) point2) point3"

definition tri_indices :: "Triangle \<Rightarrow> u32 \<times> u32 \<times> u32" where
  "tri_indices tr = (tri_idx1 tr, tri_idx2 tr, tri_idx3 tr)"

text \<open>
  The state of the loop of \<^verbatim>\<open>buildTree\<close> is consistent when work item \<open>i\<close> names triangle
  \<open>i\<close> and carries its box, every box is a valid one, and \<^verbatim>\<open>outerBb\<close> is the box of the
  work list.
\<close>

definition loop_inv :: "BuildState \<Rightarrow> bool" where
  "loop_inv s = (map triangle (work s) = [0..<length (m_triangles (this s))]
     \<and> map bb (work s) = map tri_bb (m_triangles (this s))
     \<and> list_all (\<lambda>a. valid (bb a)) (work s)
     \<and> outerBb s = slice_bb (work s))"

text \<open>The state \<^verbatim>\<open>buildTree\<close> enters its loop with, in a newly constructed tree object.\<close>

definition loop_start :: BuildState where
  "loop_start = \<lparr>this = BVHTree_new, work = [], outerBb = BoundingBox_new\<rparr>"

text \<open>
  \<open>invoked wk wk'\<close>: a call of \<^verbatim>\<open>buildTreeRecursive\<close> on the slice \<open>wk\<close> leads, through its
  recursive calls, to a call on the slice \<open>wk'\<close> (the call on \<open>wk\<close> itself included).
\<close>

inductive invoked :: "Platform \<Rightarrow> AABB list \<Rightarrow> AABB list \<Rightarrow> bool" where
  self: "invoked pf wk wk"
| left: "\<not> length wk \<le> 4 \<Longrightarrow> find_split pf (slice_bb wk) wk = (minCost, bestSplitIdx, bestAxis) \<Longrightarrow>
         bestAxis \<noteq> - 1 \<Longrightarrow> std_partition pf (pred pf (slice_bb wk) bestAxis bestSplitIdx) wk = (wl, wr) \<Longrightarrow>
         invoked pf wl wk' \<Longrightarrow> invoked pf wk wk'"
| right: "\<not> length wk \<le> 4 \<Longrightarrow> find_split pf (slice_bb wk) wk = (minCost, bestSplitIdx, bestAxis) \<Longrightarrow>
         bestAxis \<noteq> - 1 \<Longrightarrow> std_partition pf (pred pf (slice_bb wk) bestAxis bestSplitIdx) wk = (wl, wr) \<Longrightarrow>
         invoked pf wr wk' \<Longrightarrow> invoked pf wk wk'"

text \<open>What the state \<open>s\<close> after the loop of \<^verbatim>\<open>buildTree\<close> tells about its results.\<close>

definition loop_result :: "Platform \<Rightarrow> real list \<Rightarrow> u32 list \<Rightarrow> BVHNode \<Rightarrow> BVHTree \<Rightarrow> BuildState \<Rightarrow> bool" where
  "loop_result pf vertices faces m_root t0 s =
    (buildTree_loop pf vertices faces loop_start = Inr s
    \<and> loop_inv s
    \<and> m_triangles t0 = m_triangles (this s)
    \<and> m_root = fst (buildTreeRecursive pf (work s) 0 0)
    \<and> m_depth t0 = snd (buildTreeRecursive pf (work s) 0 0)
    \<and> map tri_indices (m_triangles t0) = filter (\<lambda>f. \<not> degenerate_face pf vertices f) (face_list faces)
    \<and> length (work s) = length (m_triangles t0))"

text \<open>
  The union of a list of boxes, and the trees in which the box of every inner node is the
  union of its children's boxes and the box of every leaf is the union of the boxes
  \<open>boxof i\<close> of the triangles \<open>i\<close> it holds.
\<close>

definition union_boxes :: "BoundingBox list \<Rightarrow> BoundingBox" where
  "union_boxes bs = fold (\<lambda>c b. expand_box b c) bs BoundingBox_new"

fun boxes_consistent :: "(nat \<Rightarrow> BoundingBox) \<Rightarrow> BVHNode \<Rightarrow> bool" where
  "boxes_consistent boxof (BVHLeaf b ts) = (b = union_boxes (map boxof ts))"
| "boxes_consistent boxof (BVHInner b l r) =
     (b = expand_box (node_bb l) (node_bb r) \<and> boxes_consistent boxof l \<and> boxes_consistent boxof r)"

text \<open>How a reader of the flat arrays decodes word0 of a node: the leaf flag is the top
  bit, the triangle count is in the remaining 31 bits.\<close>

definition leaf_flag :: "u32 \<Rightarrow> bool" where
  "leaf_flag w = bit w 31"

definition leaf_count :: "u32 \<Rightarrow> nat" where
  "leaf_count w = unat (w AND 0x7FFFFFFF)"

text \<open>
  The walk of a reader over the flat arrays from the node with flat index \<open>i\<close>: at a leaf
  entry it reads the count from word0 and the offset from word3 and takes that range of
  the triangle-index list; at an inner entry it follows the two stored child indices.
  It gives up (\<open>None\<close>) on an index or a range outside the arrays and when the fuel
  is used up.
\<close>

fun walk :: "nat \<Rightarrow> u32 list \<Rightarrow> u32 list \<Rightarrow> nat \<Rightarrow> u32 list option" where
  "walk 0 iot tri i = None"
| "walk (Suc fuel) iot tri i =
     (if 4 * i + 3 < length iot then
        (let w0 = iot ! (4 * i) in
         if leaf_flag w0 then
           (let cnt = leaf_count w0; off = unat (iot ! (4 * i + 3)) in
            if off + cnt \<le> length tri then Some (take cnt (drop off tri)) else None)
         else
           (case walk fuel iot tri (unat (iot ! (4 * i + 1))) of
              None \<Rightarrow> None
            | Some ls \<Rightarrow>
               (case walk fuel iot tri (unat (iot ! (4 * i + 2))) of
                  None \<Rightarrow> None
                | Some rs \<Rightarrow> Some (ls @ rs))))
      else None)"

text \<open>
  The split search in words. On an axis, the first bucket starts at \<open>axis_start\<close> and the
  32 buckets span \<open>axis_extent\<close>; an axis is skipped when its extent is below \<open>1e-4\<close>. A
  candidate is an axis with a bucket boundary \<open>i\<close>; its left side holds the items whose
  bucket is below \<open>i\<close>, its right side the others. A candidate is rejected when its axis is
  skipped, or a side has at most one item or an invalid box. The candidates are tried in
  the order of \<open>candidates\<close>: axis 0, 1, 2, and on each axis the boundaries 1 to 31.
\<close>

definition axis_start :: "BoundingBox \<Rightarrow> int \<Rightarrow> real" where
  "axis_start b axis = axis_coord axis (getMin b)"

definition axis_extent :: "Platform \<Rightarrow> BoundingBox \<Rightarrow> int \<Rightarrow> real" where
  "axis_extent pf b axis = fsub pf (axis_coord axis (getMax b)) (axis_coord axis (getMin b))"

definition axis_skipped :: "Platform \<Rightarrow> BoundingBox \<Rightarrow> int \<Rightarrow> bool" where
  "axis_skipped pf b axis = (\<bar>axis_extent pf b axis\<bar> < 1 / 10000)"

definition left_items :: "Platform \<Rightarrow> BoundingBox \<Rightarrow> AABB list \<Rightarrow> int \<times> nat \<Rightarrow> AABB list" where
  "left_items pf b wk c = filter (\<lambda>a. item_index pf (fst c) (axis_start b (fst c)) (axis_extent pf b (fst c)) a < int (snd c)) wk"

definition right_items :: "Platform \<Rightarrow> BoundingBox \<Rightarrow> AABB list \<Rightarrow> int \<times> nat \<Rightarrow> AABB list" where
  "right_items pf b wk c = filter (\<lambda>a. int (snd c) \<le> item_index pf (fst c) (axis_start b (fst c)) (axis_extent pf b (fst c)) a) wk"

definition candidate_ok :: "Platform \<Rightarrow> BoundingBox \<Rightarrow> AABB list \<Rightarrow> int \<times> nat \<Rightarrow> bool" where
  "candidate_ok pf b wk c =
     (\<not> axis_skipped pf b (fst c)
      \<and> \<not> (length (left_items pf b wk c) \<le> 1 \<or> length (right_items pf b wk c) \<le> 1
            \<or> \<not> isValid (slice_bb (left_items pf b wk c)) \<or> \<not> isValid (slice_bb (right_items pf b wk c))))"

definition candidate_cost :: "Platform \<Rightarrow> BoundingBox \<Rightarrow> AABB list \<Rightarrow> int \<times> nat \<Rightarrow> real" where
  "candidate_cost pf b wk c =
     fadd pf (fmul pf (surface pf (slice_bb (left_items pf b wk c))) (fofint pf (int (length (left_items pf b wk c)))))
             (fmul pf (surface pf (slice_bb (right_items pf b wk c))) (fofint pf (int (length (right_items pf b wk c)))))"

definition baseline :: "Platform \<Rightarrow> BoundingBox \<Rightarrow> AABB list \<Rightarrow> real" where
  "baseline pf b wk = fmul pf (fofint pf (int (length wk))) (surface pf b)"

definition candidates :: "(int \<times> nat) list" where
  "candidates = concat (map (\<lambda>axis. map (\<lambda>i. (axis, i)) [1..<32]) [0, 1, 2])"


text \<open>One step of the search, on the candidate \<open>c\<close>.\<close>

definition cand_step :: "Platform \<Rightarrow> BoundingBox \<Rightarrow> AABB list \<Rightarrow> int \<times> nat \<Rightarrow> real \<times> int \<times> int \<Rightarrow> real \<times> int \<times> int" where
  "cand_step pf b wk c st = (case st of (minCost, bestSplitIdx, bestAxis) \<Rightarrow>
     if candidate_ok pf b wk c \<and> candidate_cost pf b wk c < minCost
     then (candidate_cost pf b wk c, int (snd c), fst c) else st)"

text \<open>
  What the search state says after the candidates \<open>tried\<close>: either no split is held, the
  cost is the baseline and no accepted candidate tried so far is below it; or the state
  holds an accepted candidate below the baseline, strictly cheaper than every accepted
  candidate tried before it and at most as expensive as every one tried after it.
\<close>

definition search_inv :: "Platform \<Rightarrow> BoundingBox \<Rightarrow> AABB list \<Rightarrow> (int \<times> nat) list \<Rightarrow> real \<times> int \<times> int \<Rightarrow> bool" where
  "search_inv pf b wk tried st = (case st of (minCost, bestSplitIdx, bestAxis) \<Rightarrow>
     (bestAxis = - 1 \<and> bestSplitIdx = - 1 \<and> minCost = baseline pf b wk
        \<and> (\<forall>c \<in> set tried. candidate_ok pf b wk c \<longrightarrow> baseline pf b wk \<le> candidate_cost pf b wk c))
   \<or> (\<exists>pre c post. tried = pre @ c # post \<and> bestAxis = fst c \<and> bestSplitIdx = int (snd c)
        \<and> candidate_ok pf b wk c \<and> minCost = candidate_cost pf b wk c \<and> minCost < baseline pf b wk
        \<and> (\<forall>c' \<in> set pre. candidate_ok pf b wk c' \<longrightarrow> minCost < candidate_cost pf b wk c')
        \<and> (\<forall>c' \<in> set post. candidate_ok pf b wk c' \<longrightarrow> minCost \<le> candidate_cost pf b wk c')))"

text \<open>The box of a face of the mesh: the box of its three vertices.\<close>

definition face_box :: "real list \<Rightarrow> u32 \<times> u32 \<times> u32 \<Rightarrow> BoundingBox" where
  "face_box vertices f = (case f of (f1, f2, f3) \<Rightarrow>
     (case vertex_at vertices f1 of None \<Rightarrow> BoundingBox_new | Some point1 \<Rightarrow>
      case vertex_at vertices f2 of None \<Rightarrow> BoundingBox_new | Some point2 \<Rightarrow>
      case vertex_at vertices f3 of None \<Rightarrow> BoundingBox_new | Some point3 \<Rightarrow>
        face_bb point1 point2 point3))"

text \<open>The work list that names the triangles \<open>0, 1, ...\<close> with the boxes \<open>bs\<close>.\<close>

definition work_of :: "BoundingBox list \<Rightarrow> AABB list" where
  "work_of bs = map (\<lambda>(i, b). \<lparr>bb = b, triangle = i\<rparr>) (zip [0..<length bs] bs)"

text \<open>
  An example mesh: five triangles in the plane \<open>z = 0\<close>, each with the corners \<open>(x, 0)\<close>,
  \<open>(x + 2, 0)\<close> and \<open>(x, 1)\<close>, for \<open>x = 0, 2, 26, 28, 30\<close>; \<open>strip_box x\<close> is the box of
  such a triangle and \<open>strip_work\<close> the work list of the five. The overall box is 32
  wide, so that on the first axis the bucket of a triangle is the first coordinate of its
  centroid: 1, 3, 27, 29, 31. (The degenerate test, the boxes, the centroids, the bucket
  indices, the surfaces and the costs of this mesh are small integers and halves, which
  \<^verbatim>\<open>float\<close> arithmetic computes without rounding.)
\<close>

definition strip_vertices :: "real list" where
  "strip_vertices = [0, 0, 0,  2, 0, 0,  4, 0, 0,  26, 0, 0,  28, 0, 0,  30, 0, 0,  32, 0, 0,
                     0, 1, 0,  2, 1, 0,  26, 1, 0,  28, 1, 0,  30, 1, 0]"

definition strip_faces :: "u32 list" where
  "strip_faces = [0, 1, 7,  1, 2, 8,  3, 4, 9,  4, 5, 10,  5, 6, 11]"

definition strip_box :: "real \<Rightarrow> BoundingBox" where
  "strip_box x = \<lparr>valid = True, m_min = Vec3 x 0 0, m_max = Vec3 (x + 2) 1 0\<rparr>"

definition strip_work :: "AABB list" where
  "strip_work = [\<lparr>bb = strip_box 0, triangle = 0\<rparr>, \<lparr>bb = strip_box 2, triangle = 1\<rparr>,
                 \<lparr>bb = strip_box 26, triangle = 2\<rparr>, \<lparr>bb = strip_box 28, triangle = 3\<rparr>,
                 \<lparr>bb = strip_box 30, triangle = 4\<rparr>]"

text \<open>
  An example mesh with \<open>2^31\<close> triangles in the plane \<open>z = 0\<close>: one triangle at the origin,
  one at the far corner, and between them \<open>2^31 - 2\<close> copies of one and the same triangle;
  \<open>corner_box lo hi\<close> is the square box from \<open>(lo, lo)\<close> to \<open>(hi, hi)\<close>, and \<open>big_boxes n\<close>
  are the boxes of the mesh with \<open>n\<close> copies. The overall box is 64 wide; on the first
  two axes the three kinds of triangle fall into the buckets 0, 16 and 31, so that every
  split leaves the first or the last triangle alone on its side, and the third axis has
  no extent. No bucket counter passes \<open>2^31 - 1\<close>. (Here too the quantities the builder
  compares are small integers and quarters, which \<^verbatim>\<open>float\<close> arithmetic computes without
  rounding.)
\<close>

definition big_vertices :: "real list" where
  "big_vertices = [0, 0, 0,  1, 0, 0,  0, 1, 0,  31, 31, 0,  33, 31, 0,  31, 33, 0,
                   63, 63, 0,  64, 63, 0,  63, 64, 0]"

definition big_faces :: "u32 list" where
  "big_faces = [0, 1, 2] @ concat (replicate (2 ^ 31 - 2) [3, 4, 5]) @ [6, 7, 8]"

definition corner_box :: "real \<Rightarrow> real \<Rightarrow> BoundingBox" where
  "corner_box lo hi = \<lparr>valid = True, m_min = Vec3 lo lo 0, m_max = Vec3 hi hi 0\<rparr>"

definition big_boxes :: "nat \<Rightarrow> BoundingBox list" where
  "big_boxes n = corner_box 0 1 # replicate n (corner_box 31 33) @ [corner_box 63 64]"

section \<open>The recursion of buildTreeRecursive ends\<close>

lemma bucket_index_range: "0 \<le> bucket_index pf v s r \<and> bucket_index pf v s r \<le> 31"
  by (simp add: bucket_index_def clamp_def BUCKETS_def)

lemma valid_expand_box: "valid (expand_box b c) = (valid b \<or> valid c)"
  by (simp add: expand_box_def)

lemma bucket_fold_length:
  "fold (bucket_step pf axis start rng) wk (bs, cs) = (bs', cs') \<Longrightarrow>
   length bs' = length bs \<and> length cs' = length cs"
  by (induction wk arbitrary: bs cs) (auto simp: bucket_step_def Let_def)

lemma bucket_fold_valid:
  "fold (bucket_step pf axis start rng) wk (bs, cs) = (bs', cs') \<Longrightarrow> k < length bs \<Longrightarrow>
   valid (bs' ! k) \<Longrightarrow>
   valid (bs ! k) \<or> (\<exists>a \<in> set wk. item_index pf axis start rng a = int k)"
proof (induction wk arbitrary: bs cs)
  case Nil
  then show ?case by simp
next
  case (Cons a wk)
  let ?ix = "nat (item_index pf axis start rng a)"
  have step: "bucket_step pf axis start rng a (bs, cs) =
      (bs[?ix := expand_box (bs ! ?ix) (bb a)], cs[?ix := cs ! ?ix + 1])"
    by (simp add: bucket_step_def Let_def item_index_def)
  from Cons.prems(1) have f: "fold (bucket_step pf axis start rng) wk
      (bs[?ix := expand_box (bs ! ?ix) (bb a)], cs[?ix := cs ! ?ix + 1]) = (bs', cs')"
    by (simp add: step)
  from Cons.IH[OF f] Cons.prems(2,3)
  have "valid (bs[?ix := expand_box (bs ! ?ix) (bb a)] ! k) \<or> (\<exists>a \<in> set wk. item_index pf axis start rng a = int k)"
    by simp
  moreover have "0 \<le> item_index pf axis start rng a"
    using bucket_index_range by (simp add: item_index_def)
  ultimately show ?case using Cons.prems(2)
    by (cases "?ix = k") (auto simp: valid_expand_box)
qed

lemma side_step_app:
  "side_step bs cs j (b, c) =
     (if \<not> isValid (bs ! j) then (b, c) else (expand_box b (bs ! j), c + cs ! j))"
  by (simp add: side_step_def)

lemma side_fold_valid:
  "fold (side_step bs cs) js (b0, c0) = (b, c) \<Longrightarrow> valid b \<Longrightarrow>
   valid b0 \<or> (\<exists>j \<in> set js. valid (bs ! j))"
proof (induction js arbitrary: b0 c0)
  case Nil
  then show ?case by simp
next
  case (Cons j js)
  show ?case
  proof (cases "isValid (bs ! j)")
    case True
    then show ?thesis by (simp add: isValid_def)
  next
    case False
    with Cons.prems have "fold (side_step bs cs) js (b0, c0) = (b, c)"
      by (simp add: side_step_app)
    from Cons.IH[OF this Cons.prems(2)] show ?thesis by auto
  qed
qed

lemma pred_item_index:
  "pred pf b axis si a = (item_index pf axis (axis_coord axis (getMin b))
      (fsub pf (axis_coord axis (getMax b)) (axis_coord axis (getMin b))) a < si)"
  by (simp add: pred_def item_index_def Let_def)

lemma split_step_good:
  assumes bf: "fold (bucket_step pf axis (axis_coord axis (getMin b)) (fsub pf (axis_coord axis (getMax b)) (axis_coord axis (getMin b)))) wk
            (replicate BUCKETS BoundingBox_new, replicate BUCKETS 0) = (bs, cs)"
    and g: "good_split pf b wk st" and i: "i < BUCKETS" and ax: "axis \<noteq> - 1"
  shows "good_split pf b wk (split_step pf bs cs axis i st)"
proof -
  let ?start = "axis_coord axis (getMin b)"
  let ?rng = "fsub pf (axis_coord axis (getMax b)) (axis_coord axis (getMin b))"
  obtain mc si ba where st: "st = (mc, si, ba)" by (cases st) auto
  obtain lBb cl where L: "fold (side_step bs cs) [0..<i] (BoundingBox_new, 0) = (lBb, cl)"
    by (cases "fold (side_step bs cs) [0..<i] (BoundingBox_new, 0)") auto
  obtain rBb cr where R: "fold (side_step bs cs) [i..<BUCKETS] (BoundingBox_new, 0) = (rBb, cr)"
    by (cases "fold (side_step bs cs) [i..<BUCKETS] (BoundingBox_new, 0)") auto
  have len: "length bs = BUCKETS" using bucket_fold_length[OF bf] by simp
  have init: "\<And>k. k < BUCKETS \<Longrightarrow> \<not> valid (replicate BUCKETS BoundingBox_new ! k)"
    by (simp add: BoundingBox_new_def)
  have item: "\<exists>a \<in> set wk. item_index pf axis ?start ?rng a = int k" if "k < BUCKETS" "valid (bs ! k)" for k
    using bucket_fold_valid[OF bf, of k] that init[of k] by simp
  show ?thesis
  proof (cases "split_step pf bs cs axis i st = st")
    case True
    then show ?thesis using g by simp
  next
    case False
    then have acc: "split_step pf bs cs axis i st =
        (fadd pf (fmul pf (surface pf lBb) (fofint pf (sint cl))) (fmul pf (surface pf rBb) (fofint pf (sint cr))), int i, axis)"
      and v: "isValid lBb" "isValid rBb"
      by (auto simp: split_step_def st L R Let_def split: if_splits)
    from side_fold_valid[OF L] v(1) obtain j where j: "j < i" "valid (bs ! j)"
      by (auto simp: isValid_def BoundingBox_new_def)
    from side_fold_valid[OF R] v(2) obtain j' where j': "i \<le> j'" "j' < BUCKETS" "valid (bs ! j')"
      by (auto simp: isValid_def BoundingBox_new_def)
    from item[of j] j i obtain a where a: "a \<in> set wk" "item_index pf axis ?start ?rng a = int j" by auto
    from item[of j'] j' obtain a' where a': "a' \<in> set wk" "item_index pf axis ?start ?rng a' = int j'" by auto
    have "pred pf b axis (int i) a" using a j by (simp add: pred_item_index)
    moreover have "\<not> pred pf b axis (int i) a'" using a' j' by (simp add: pred_item_index)
    ultimately show ?thesis using a(1) a'(1) by (auto simp: acc good_split_def)
  qed
qed

lemma split_fold_good:
  assumes bf: "fold (bucket_step pf axis (axis_coord axis (getMin b)) (fsub pf (axis_coord axis (getMax b)) (axis_coord axis (getMin b)))) wk
            (replicate BUCKETS BoundingBox_new, replicate BUCKETS 0) = (bs, cs)"
    and ax: "axis \<noteq> - 1"
  shows "good_split pf b wk st \<Longrightarrow> \<forall>i \<in> set is. i < BUCKETS \<Longrightarrow> good_split pf b wk (fold (split_step pf bs cs axis) is st)"
proof (induction "is" arbitrary: st)
  case Nil
  then show ?case by simp
next
  case (Cons i "is")
  then show ?case using split_step_good[OF bf _ _ ax] by simp
qed

lemma axis_step_good:
  assumes "good_split pf b wk st" "axis \<noteq> - 1"
  shows "good_split pf b wk (axis_step pf b wk axis st)"
proof -
  let ?start = "axis_coord axis (getMin b)"
  let ?rng = "fsub pf (axis_coord axis (getMax b)) (axis_coord axis (getMin b))"
  obtain bs cs where bf: "fold (bucket_step pf axis ?start ?rng) wk
            (replicate BUCKETS BoundingBox_new, replicate BUCKETS 0) = (bs, cs)"
    by (cases "fold (bucket_step pf axis ?start ?rng) wk (replicate BUCKETS BoundingBox_new, replicate BUCKETS 0)") auto
  show ?thesis
    using assms(1) split_fold_good[OF bf assms(2) assms(1), of "[1..<BUCKETS]"]
    by (simp add: axis_step_def Let_def bf)
qed

lemma find_split_good: "good_split pf b wk (find_split pf b wk)"
proof -
  have g0: "good_split pf b wk (fmul pf (fofint pf (int (length wk))) (surface pf b), - 1, - 1)"
    by (simp add: good_split_def)
  show ?thesis
    unfolding find_split_def Let_def
    by (simp add: axis_step_good g0)
qed

lemma std_partition_mset:
  assumes "std_partition pf P wk = (wl, wr)"
  shows "mset wl = mset (filter P wk)" "mset wr = mset (filter (Not \<circ> P) wk)"
  using assms by (auto simp: std_partition_def split: prod.splits if_splits)

lemma std_partition_exact: "std_partition exact P wk = partition P wk"
  by (simp add: std_partition_def exact_def)

lemma find_split_shrinks:
  assumes "find_split pf b wk = (minCost, bestSplitIdx, bestAxis)" "bestAxis \<noteq> - 1"
    and "std_partition pf (pred pf b bestAxis bestSplitIdx) wk = (wl, wr)"
  shows "length wl < length wk" "length wr < length wk" "wl \<noteq> []" "wr \<noteq> []"
proof -
  from find_split_good[of pf b wk] assms(1,2)
  obtain a a' where a: "a \<in> set wk" "pred pf b bestAxis bestSplitIdx a"
    and a': "a' \<in> set wk" "\<not> pred pf b bestAxis bestSplitIdx a'"
    by (auto simp: good_split_def)
  have wl: "length wl = length (filter (pred pf b bestAxis bestSplitIdx) wk)"
    using std_partition_mset(1)[OF assms(3)] by (metis size_mset)
  have wr: "length wr = length (filter (Not \<circ> pred pf b bestAxis bestSplitIdx) wk)"
    using std_partition_mset(2)[OF assms(3)] by (metis size_mset)
  show "length wl < length wk" unfolding wl using a' by (meson length_filter_less)
  show "length wr < length wk" unfolding wr using a by (intro length_filter_less[of a]) auto
  have "filter (pred pf b bestAxis bestSplitIdx) wk \<noteq> []" using a by (auto simp: filter_empty_conv)
  then show "wl \<noteq> []" using wl by auto
  have "filter (Not \<circ> pred pf b bestAxis bestSplitIdx) wk \<noteq> []" using a' by (auto simp: filter_empty_conv)
  then show "wr \<noteq> []" using wr by auto
qed

termination buildTreeRecursive
proof (relation "measure (\<lambda>(pf, wk, depth, mdepth). length wk)")
  show "wf (measure (\<lambda>(pf :: Platform, wk :: AABB list, depth :: u32, mdepth :: u32). length wk))" by simp
next
  fix pf :: Platform and wk :: "AABB list" and depth mdepth :: u32 and x xa y xb ya xc yb
  assume "x = slice_bb wk" "\<not> length wk \<le> 4" "(xa, y) = find_split pf x wk" "(xb, ya) = y"
    "ya \<noteq> - 1" "(xc, yb) = std_partition pf (pred pf x ya xb) wk"
  then show "((pf, xc, depth + 1, mdepth), pf, wk, depth, mdepth) \<in> measure (\<lambda>(pf, wk, depth, mdepth). length wk)"
    using find_split_shrinks(1)[of pf x wk xa xb ya xc yb] by simp
next
  fix pf :: Platform and wk :: "AABB list" and depth mdepth :: u32 and x xa y xb ya xc yb xd yc
  assume "x = slice_bb wk" "\<not> length wk \<le> 4" "(xa, y) = find_split pf x wk" "(xb, ya) = y"
    "ya \<noteq> - 1" "(xc, yb) = std_partition pf (pred pf x ya xb) wk"
  then show "((pf, yb, depth + 1, yc), pf, wk, depth, mdepth) \<in> measure (\<lambda>(pf, wk, depth, mdepth). length wk)"
    using find_split_shrinks(2)[of pf x wk xa xb ya xc yb] by simp
qed

section \<open>Flattening\<close>

lemma num_nodes_pos: "0 < num_nodes t" by (cases t) auto
lemma length_preorder: "length (preorder t) = num_nodes t" by (induction t) auto
lemma length_flat_words: "length (flat_words i off t) = 4 * num_nodes t"
  by (induction t arbitrary: i off) auto
lemma length_flat_limits: "length (flat_limits t) = 6 * num_nodes t"
  by (induction t) (auto simp: box_limits_def)

lemma createCFTreeRecursive_flat:
  "createCFTreeRecursive t s (of_nat i) =
     (s\<lparr>m_limits := m_limits s @ flat_limits t,
        m_indexesOrTrilists := m_indexesOrTrilists s @ flat_words i (length (m_triIndexList s)) t,
        m_triIndexList := m_triIndexList s @ map of_nat (tri_list t)\<rparr>,
      of_nat (i + num_nodes t - 1))"
proof (induction t arbitrary: s i)
  case (BVHLeaf b ts)
  show ?case by (simp add: push_limits_def push_word_def box_limits_def Let_def)
next
  case (BVHInner b l r)
  have il: "(of_nat i :: u32) + 1 = of_nat (i + 1)" by simp
  have ir: "(of_nat (i + 1 + num_nodes l - 1) :: u32) + 1 = of_nat (i + 1 + num_nodes l)"
    using num_nodes_pos[of l] by (metis Suc_eq_plus1 add_diff_cancel_right' of_nat_Suc add.assoc add.commute)
  show ?case
    apply (simp only: createCFTreeRecursive.simps Let_def il)
    apply (simp only: BVHInner.IH(1) split_conv ir BVHInner.IH(2))
    using num_nodes_pos[of l] num_nodes_pos[of r]
    apply (simp add: push_limits_def push_word_def box_limits_def list_update_append)
    done
qed

lemma tri_list_preorder: "tri_list t = concat (map own_triangles (preorder t))"
  by (induction t) (auto simp: own_triangles_def)

lemma hd_preorder: "preorder t ! 0 = t"
  by (cases t) auto

lemma tri_offset_0: "tri_offset t 0 = 0"
  by (simp add: tri_offset_def)

lemma tri_offset_inner_left:
  "k < num_nodes l \<Longrightarrow> tri_offset (BVHInner b l r) (Suc k) = tri_offset l k"
  by (simp add: tri_offset_def own_triangles_def length_preorder)

lemma tri_offset_inner_right:
  "tri_offset (BVHInner b l r) (Suc (num_nodes l + k)) = length (tri_list l) + tri_offset r k"
  by (simp add: tri_offset_def own_triangles_def length_preorder tri_list_preorder)

lemma preorder_inner_left:
  "k < num_nodes l \<Longrightarrow> preorder (BVHInner b l r) ! Suc k = preorder l ! k"
  by (simp add: nth_append length_preorder)

lemma preorder_inner_right:
  "preorder (BVHInner b l r) ! Suc (num_nodes l + k) = preorder r ! k"
  by (simp add: nth_append length_preorder)

lemma take_drop_head:
  "length h = m \<Longrightarrow> take n (drop (m + j) (h @ xs)) = take n (drop j xs)"
  by simp

lemma take_drop_left:
  "j + n \<le> length xs \<Longrightarrow> take n (drop j (xs @ ys)) = take n (drop j xs)"
  by simp

lemma take_drop_right:
  "take n (drop (length xs + j) (xs @ ys)) = take n (drop j ys)"
  by simp

lemma flat_words_inner:
  "flat_words i off (BVHInner b l r) =
     [0, of_nat (i + 1), of_nat (i + 1 + num_nodes l), 0]
     @ (flat_words (i + 1) off l
     @ flat_words (i + 1 + num_nodes l) (off + length (tri_list l)) r)"
  by simp

lemma flat_words_nth:
  "k < num_nodes t \<Longrightarrow>
   take 4 (drop (4 * k) (flat_words i off t)) = node_words (i + k) (off + tri_offset t k) (preorder t ! k)"
proof (induction t arbitrary: i off k)
  case (BVHLeaf b ts)
  then show ?case by (simp add: tri_offset_def)
next
  case (BVHInner b l r)
  show ?case
  proof (cases k)
    case 0
    then show ?thesis by (simp add: tri_offset_def)
  next
    case (Suc k')
    show ?thesis
    proof (cases "k' < num_nodes l")
      case True
      have "4 * k = 4 + 4 * k'" by (simp add: Suc)
      then have "take 4 (drop (4 * k) (flat_words i off (BVHInner b l r)))
          = take 4 (drop (4 * k') (flat_words (i + 1) off l
              @ flat_words (i + 1 + num_nodes l) (off + length (tri_list l)) r))"
        unfolding flat_words_inner by (simp only: take_drop_head[of _ 4] length_Cons list.size)
      also have "\<dots> = take 4 (drop (4 * k') (flat_words (i + 1) off l))"
        using True by (intro take_drop_left) (simp add: length_flat_words)
      also have "\<dots> = node_words (i + 1 + k') (off + tri_offset l k') (preorder l ! k')"
        by (rule BVHInner.IH(1)[OF True])
      finally have "take 4 (drop (4 * k) (flat_words i off (BVHInner b l r)))
          = node_words (i + 1 + k') (off + tri_offset l k') (preorder l ! k')" .
      moreover have "preorder (BVHInner b l r) ! k = preorder l ! k'"
        unfolding Suc by (rule preorder_inner_left[OF True])
      moreover have "tri_offset (BVHInner b l r) k = tri_offset l k'"
        unfolding Suc by (rule tri_offset_inner_left[OF True])
      moreover have "i + k = i + 1 + k'" by (simp add: Suc)
      ultimately show ?thesis by (simp only:)
    next
      case False
      then obtain k'' where k'': "k' = num_nodes l + k''"
        by (metis le_add_diff_inverse not_less)
      with BVHInner.prems Suc have lt: "k'' < num_nodes r" by simp
      have "4 * k = 4 + (length (flat_words (i + 1) off l) + 4 * k'')"
        by (simp add: Suc k'' length_flat_words)
      then have "take 4 (drop (4 * k) (flat_words i off (BVHInner b l r)))
          = take 4 (drop (length (flat_words (i + 1) off l) + 4 * k'') (flat_words (i + 1) off l
              @ flat_words (i + 1 + num_nodes l) (off + length (tri_list l)) r))"
        unfolding flat_words_inner by (simp only: take_drop_head[of _ 4] length_Cons list.size)
      also have "\<dots> = take 4 (drop (4 * k'') (flat_words (i + 1 + num_nodes l) (off + length (tri_list l)) r))"
        by (rule take_drop_right)
      also have "\<dots> = node_words (i + 1 + num_nodes l + k'') (off + length (tri_list l) + tri_offset r k'') (preorder r ! k'')"
        by (rule BVHInner.IH(2)[OF lt])
      finally have "take 4 (drop (4 * k) (flat_words i off (BVHInner b l r)))
          = node_words (i + 1 + num_nodes l + k'') (off + length (tri_list l) + tri_offset r k'') (preorder r ! k'')" .
      moreover have "preorder (BVHInner b l r) ! k = preorder r ! k''"
        unfolding Suc k'' by (rule preorder_inner_right)
      moreover have "off + tri_offset (BVHInner b l r) k = off + length (tri_list l) + tri_offset r k''"
        unfolding Suc k'' by (simp only: tri_offset_inner_right add.assoc)
      moreover have "i + k = i + 1 + num_nodes l + k''" by (simp add: Suc k'')
      ultimately show ?thesis by (simp only:)
    qed
  qed
qed

lemma flat_limits_nth:
  "k < num_nodes t \<Longrightarrow>
   take 6 (drop (6 * k) (flat_limits t)) = box_limits (node_bb (preorder t ! k))"
proof (induction t arbitrary: k)
  case (BVHLeaf b ts)
  then show ?case by (simp add: box_limits_def)
next
  case (BVHInner b l r)
  have len6: "length (box_limits b) = 6" by (simp add: box_limits_def)
  show ?case
  proof (cases k)
    case 0
    then show ?thesis by (simp add: len6)
  next
    case (Suc k')
    show ?thesis
    proof (cases "k' < num_nodes l")
      case True
      then show ?thesis
        using BVHInner.IH(1)[OF True]
        by (simp add: Suc length_flat_limits len6 preorder_inner_left del: preorder.simps)
    next
      case False
      then obtain k'' where k'': "k' = num_nodes l + k''"
        by (metis le_add_diff_inverse not_less)
      with BVHInner.prems Suc have lt: "k'' < num_nodes r" by simp
      show ?thesis
        using BVHInner.IH(2)[OF lt]
        by (simp add: Suc k'' length_flat_limits len6 preorder_inner_right del: preorder.simps)
    qed
  qed
qed

lemma preorder_subtree:
  "k < num_nodes t \<Longrightarrow>
   take (num_nodes (preorder t ! k)) (drop k (preorder t)) = preorder (preorder t ! k)"
proof (induction t arbitrary: k)
  case (BVHLeaf b ts)
  then show ?case by simp
next
  case (BVHInner b l r)
  show ?case
  proof (cases k)
    case 0
    then show ?thesis by (simp add: length_preorder)
  next
    case (Suc k')
    show ?thesis
    proof (cases "k' < num_nodes l")
      case True
      from arg_cong[OF BVHInner.IH(1)[OF True], of length]
      have "num_nodes (preorder l ! k') \<le> num_nodes l - k'"
        by (simp add: length_preorder min_def split: if_splits)
      then show ?thesis
        using BVHInner.IH(1)[OF True] True
        by (simp add: Suc length_preorder preorder_inner_left del: preorder.simps)
           (simp add: length_preorder)
    next
      case False
      then obtain k'' where k'': "k' = num_nodes l + k''"
        by (metis le_add_diff_inverse not_less)
      with BVHInner.prems Suc have lt: "k'' < num_nodes r" by simp
      show ?thesis
        using BVHInner.IH(2)[OF lt]
        by (simp add: Suc k'' preorder_inner_right del: preorder.simps)
           (simp add: length_preorder)
    qed
  qed
qed

lemma preorder_children:
  assumes "k < num_nodes t" "preorder t ! k = BVHInner b l r"
  shows "k + 1 + num_nodes l < num_nodes t"
    and "preorder t ! (k + 1) = l"
    and "preorder t ! (k + 1 + num_nodes l) = r"
proof -
  let ?n = "1 + num_nodes l + num_nodes r"
  from preorder_subtree[OF assms(1)] assms(2)
  have eq: "take ?n (drop k (preorder t)) = BVHInner b l r # preorder l @ preorder r"
    by simp
  then have "length (take ?n (drop k (preorder t))) = ?n"
    by (simp add: length_preorder)
  then have le: "k + ?n \<le> num_nodes t"
    by (simp add: length_preorder min_def split: if_splits)
  show "k + 1 + num_nodes l < num_nodes t"
    using le num_nodes_pos[of r] by simp
  have nth: "preorder t ! (k + j) = (BVHInner b l r # preorder l @ preorder r) ! j" if "j < ?n" for j
  proof -
    have "(take ?n (drop k (preorder t))) ! j = preorder t ! (k + j)"
      using that le by (simp add: length_preorder)
    then show ?thesis using eq by simp
  qed
  show "preorder t ! (k + 1) = l"
    using nth[of 1] num_nodes_pos[of l] by (simp add: nth_append length_preorder hd_preorder)
  show "preorder t ! (k + 1 + num_nodes l) = r"
    using nth[of "1 + num_nodes l"] num_nodes_pos[of r]
    by (simp add: nth_append length_preorder hd_preorder add.assoc)
qed

lemma leaf_tri_range:
  assumes "k < num_nodes t" "preorder t ! k = BVHLeaf b ts"
  shows "take (length ts) (drop (tri_offset t k) (tri_list t)) = ts"
proof -
  have "preorder t = take k (preorder t) @ BVHLeaf b ts # drop (Suc k) (preorder t)"
    using assms by (metis id_take_nth_drop length_preorder)
  then have "tri_list t = concat (map own_triangles (take k (preorder t))) @ ts
      @ concat (map own_triangles (drop (Suc k) (preorder t)))"
    unfolding tri_list_preorder
    by (metis (no_types, lifting) BVHNode.simps(5) concat.simps(2) concat_append list.simps(9) map_append own_triangles_def)
  then show ?thesis by (simp add: tri_offset_def)
qed

section \<open>createCFTree on a tree object with empty arrays\<close>

lemma fold_push_triangle:
  "fold push_triangle trs dat = dat @ concat (map triangle_record trs)"
  by (induction trs arbitrary: dat) (auto simp: push_triangle_def triangle_record_def)

lemma createCFTree_fresh:
  assumes "fresh t"
  shows "m_limits (createCFTree m_root t) = flat_limits m_root"
    and "m_indexesOrTrilists (createCFTree m_root t) = flat_words 0 0 m_root"
    and "m_triIndexList (createCFTree m_root t) = map of_nat (tri_list m_root)"
    and "m_trianglesIntersectionData (createCFTree m_root t) = concat (map triangle_record (m_triangles t))"
    and "m_triangles (createCFTree m_root t) = m_triangles t"
    and "m_depth (createCFTree m_root t) = m_depth t"
  using assms createCFTreeRecursive_flat[of m_root t 0]
  by (simp_all add: createCFTree_def fresh_def convertTrianglesIntersectionData_def fold_push_triangle)

lemma nth_of_take_drop:
  assumes "take n (drop j xs) = ys" "i < length ys"
  shows "xs ! (j + i) = ys ! i"
proof -
  from assms have "i < n" "j + i < length xs" by auto
  then have "take n (drop j xs) ! i = xs ! (j + i)" by simp
  with assms(1) show ?thesis by simp
qed

lemma unat_of_nat32: "n < 2 ^ 32 \<Longrightarrow> unat (of_nat n :: u32) = n"
  by (rule of_nat_inverse[OF refl]) simp

section \<open>The properties\<close>

text \<open>
  C9. In the flat representation of any tree, an inner node with flat index \<open>k\<close> has its
  left child at flat index \<open>k + 1\<close>: the node that follows it in pre-order is its left
  child, and the word stored as its first child index is \<open>k + 1\<close> (as a 32-bit word; read
  as a number it is \<open>k + 1\<close> whenever that fits in 32 bits).
\<close>

theorem left_child_follows_parent:
  assumes "fresh t" "k < num_nodes m_root" "preorder m_root ! k = BVHInner b l r"
  shows "preorder m_root ! (k + 1) = l
       \<and> m_indexesOrTrilists (createCFTree m_root t) ! (4 * k + 1) = of_nat k + 1
       \<and> (k + 1 < 2 ^ 32 \<longrightarrow> unat (m_indexesOrTrilists (createCFTree m_root t) ! (4 * k + 1)) = k + 1)"
proof -
  have w: "take 4 (drop (4 * k) (flat_words 0 0 m_root)) = [0, of_nat (k + 1), of_nat (k + 1 + num_nodes l), 0]"
    using flat_words_nth[OF assms(2), of 0 0] assms(3) by simp
  have "flat_words 0 0 m_root ! (4 * k + 1) = [0, of_nat (k + 1), of_nat (k + 1 + num_nodes l), 0::u32] ! 1"
    by (rule nth_of_take_drop[OF w]) simp
  then have iot: "m_indexesOrTrilists (createCFTree m_root t) ! (4 * k + 1) = of_nat (k + 1)"
    by (simp add: createCFTree_fresh[OF assms(1)])
  have "unat (of_nat (k + 1) :: u32) = k + 1" if "k + 1 < 2 ^ 32"
    using that by (rule unat_of_nat32)
  with iot preorder_children(2)[OF assms(2,3)] show ?thesis by simp
qed

theorem left_child_follows_parent_witness:
  "fresh BVHTree_new \<and> 0 < num_nodes (BVHInner BoundingBox_new (BVHLeaf BoundingBox_new [0]) (BVHLeaf BoundingBox_new [1]))
   \<and> m_indexesOrTrilists (createCFTree (BVHInner BoundingBox_new (BVHLeaf BoundingBox_new [0]) (BVHLeaf BoundingBox_new [1])) BVHTree_new) ! 1 = 1"
  using left_child_follows_parent[of BVHTree_new 0 "BVHInner BoundingBox_new (BVHLeaf BoundingBox_new [0]) (BVHLeaf BoundingBox_new [1])"
     BoundingBox_new "BVHLeaf BoundingBox_new [0]" "BVHLeaf BoundingBox_new [1]"]
  by (simp add: fresh_def BVHTree_new_def)

section \<open>What buildTreeRecursive builds\<close>

lemma buildTreeRecursive_leaf:
  "length wk \<le> 4 \<Longrightarrow>
   buildTreeRecursive pf wk depth mdepth = (BVHLeaf (slice_bb wk) (map triangle wk), max mdepth depth)"
  by (simp add: Let_def)

lemma buildTreeRecursive_no_split:
  "find_split pf (slice_bb wk) wk = (minCost, bestSplitIdx, - 1) \<Longrightarrow>
   buildTreeRecursive pf wk depth mdepth = (BVHLeaf (slice_bb wk) (map triangle wk), max mdepth depth)"
  by (simp add: Let_def)

lemma buildTreeRecursive_split:
  assumes "\<not> length wk \<le> 4" "find_split pf (slice_bb wk) wk = (minCost, bestSplitIdx, bestAxis)"
    "bestAxis \<noteq> - 1" "std_partition pf (pred pf (slice_bb wk) bestAxis bestSplitIdx) wk = (wl, wr)"
  shows "buildTreeRecursive pf wk depth mdepth =
     (case buildTreeRecursive pf wl (depth + 1) mdepth of
        (l, mdepth1) \<Rightarrow>
      case buildTreeRecursive pf wr (depth + 1) mdepth1 of
        (r, mdepth2) \<Rightarrow> (BVHInner (slice_bb wk) l r, mdepth2))"
  by (subst buildTreeRecursive.simps) (simp only: Let_def assms if_False prod.case)

declare buildTreeRecursive.simps [simp del]

lemma buildTreeRecursive_covers: "covers wk (fst (buildTreeRecursive pf wk depth mdepth))"
proof (induction wk arbitrary: depth mdepth rule: length_induct)
  case (1 wk)
  obtain minCost bestSplitIdx bestAxis
    where fs: "find_split pf (slice_bb wk) wk = (minCost, bestSplitIdx, bestAxis)"
    by (cases "find_split pf (slice_bb wk) wk") auto
  show ?case
  proof (cases "length wk \<le> 4 \<or> bestAxis = - 1")
    case True
    then show ?thesis
      using fs buildTreeRecursive_leaf[of wk] buildTreeRecursive_no_split[of pf wk]
      by (auto intro: covers.leaf)
  next
    case False
    let ?P = "pred pf (slice_bb wk) bestAxis bestSplitIdx"
    obtain wl wr where part: "std_partition pf ?P wk = (wl, wr)"
      by (cases "std_partition pf ?P wk") auto
    from False have ax: "bestAxis \<noteq> - 1" and big: "\<not> length wk \<le> 4" by auto
    note sh = find_split_shrinks[OF fs ax part]
    obtain l md1 where L: "buildTreeRecursive pf wl (depth + 1) mdepth = (l, md1)"
      by (cases "buildTreeRecursive pf wl (depth + 1) mdepth") auto
    obtain r md2 where R: "buildTreeRecursive pf wr (depth + 1) md1 = (r, md2)"
      by (cases "buildTreeRecursive pf wr (depth + 1) md1") auto
    have cl: "covers wl l" using 1 sh(1) L by (metis fst_conv)
    have cr: "covers wr r" using 1 sh(2) R by (metis fst_conv)
    have "mset wk = mset (filter ?P wk) + mset (filter (Not \<circ> ?P) wk)"
      by (induction wk) auto
    then have ms: "mset wk = mset wl + mset wr"
      by (simp only: std_partition_mset[OF part])
    have "buildTreeRecursive pf wk depth mdepth = (BVHInner (slice_bb wk) l r, md2)"
      by (simp add: buildTreeRecursive_split[OF big fs ax part] L R)
    then show ?thesis
      using covers.inner[OF sh(3) sh(4) ms cl cr] by simp
  qed
qed

lemma covers_tri_list: "covers wk t \<Longrightarrow> mset (tri_list t) = mset (map triangle wk)"
  by (induction rule: covers.induct) auto

lemma covers_leaves_inhabited: "covers wk t \<Longrightarrow> wk \<noteq> [] \<Longrightarrow> leaves_inhabited t"
  by (induction rule: covers.induct) auto

lemma covers_node_bb: "covers wk t \<Longrightarrow> node_bb t = slice_bb wk"
  by (induction rule: covers.induct) auto

lemma covers_num_nodes: "covers wk t \<Longrightarrow> wk \<noteq> [] \<Longrightarrow> num_nodes t + 1 \<le> 2 * length wk"
proof (induction rule: covers.induct)
  case (leaf wk)
  then show ?case by (cases wk) auto
next
  case (inner wl wr wk l r)
  from inner.hyps(3) have "length wk = length wl + length wr"
    by (metis size_mset size_union)
  with inner show ?case by simp
qed

section \<open>The loop over the faces\<close>

lemma slice_bb_snoc: "slice_bb (wk @ [a]) = expand_box (slice_bb wk) (bb a)"
  by (simp add: slice_bb_def)

lemma valid_face_bb: "valid (face_bb point1 point2 point3)"
  by (simp add: face_bb_def expand_point_def)

lemma face_step_degenerate:
  "degenerate pf point1 point2 point3 \<Longrightarrow> face_step pf f1 f2 f3 point1 point2 point3 s = s"
  by (simp add: face_step_def degenerate_def Let_def)

lemma face_step_retained:
  assumes "\<not> degenerate pf point1 point2 point3"
  shows "face_step pf f1 f2 f3 point1 point2 point3 s =
         s\<lparr>this := (this s)\<lparr>m_triangles := m_triangles (this s)
                  @ [make_triangle pf f1 f2 f3 point1 point2 point3 (face_bb point1 point2 point3)]\<rparr>,
           outerBb := expand_box (outerBb s) (face_bb point1 point2 point3),
           work := work s @ [\<lparr>bb = face_bb point1 point2 point3,
                              triangle = length (m_triangles (this s))\<rparr>]\<rparr>"
  using assms by (simp add: face_step_def degenerate_def Let_def face_bb_def)

lemma make_triangle_fields:
  "tri_indices (make_triangle pf f1 f2 f3 point1 point2 point3 b) = (f1, f2, f3)"
  "tri_bb (make_triangle pf f1 f2 f3 point1 point2 point3 b) = b"
  by (simp_all add: make_triangle_def tri_indices_def Let_def)

lemma face_step_inv:
  assumes "loop_inv s"
  shows "loop_inv (face_step pf f1 f2 f3 point1 point2 point3 s)"
proof (cases "degenerate pf point1 point2 point3")
  case True
  then show ?thesis using assms by (simp add: face_step_degenerate)
next
  case False
  show ?thesis
    using assms unfolding face_step_retained[OF False] loop_inv_def
    by (simp add: make_triangle_fields valid_face_bb slice_bb_snoc)
qed

lemma face_step_this:
  "this (face_step pf f1 f2 f3 point1 point2 point3 s)
     = (this s)\<lparr>m_triangles := m_triangles (this (face_step pf f1 f2 f3 point1 point2 point3 s))\<rparr>"
  by (cases "degenerate pf point1 point2 point3")
     (simp_all add: face_step_degenerate face_step_retained)

lemma face_step_indices:
  assumes "vertex_at vertices f1 = Some point1" "vertex_at vertices f2 = Some point2"
    "vertex_at vertices f3 = Some point3"
  shows "map tri_indices (m_triangles (this (face_step pf f1 f2 f3 point1 point2 point3 s)))
     = map tri_indices (m_triangles (this s)) @ filter (\<lambda>f. \<not> degenerate_face pf vertices f) [(f1, f2, f3)]"
  by (cases "degenerate pf point1 point2 point3")
     (simp_all add: assms face_step_degenerate face_step_retained degenerate_face_def make_triangle_fields)

lemma buildTree_loop_total:
  "wf_mesh vertices faces \<Longrightarrow> \<exists>s'. buildTree_loop pf vertices faces s = Inr s'"
proof (induction pf vertices faces s rule: buildTree_loop.induct)
  case (1 pf vertices f1 f2 f3 faces s)
  from "1.prems" have wf: "wf_mesh vertices faces"
    and v: "vertex_at vertices f1 \<noteq> None" "vertex_at vertices f2 \<noteq> None" "vertex_at vertices f3 \<noteq> None"
    by (auto simp: wf_mesh_def)
  from v obtain p1 p2 p3 where p: "vertex_at vertices f1 = Some p1" "vertex_at vertices f2 = Some p2"
    "vertex_at vertices f3 = Some p3" by auto
  from "1.IH"[OF p wf] show ?case by (simp add: p)
next
  case (2 pf vertices s)
  show ?case by simp
qed (simp_all add: wf_mesh_def)

lemma buildTree_loop_wf:
  "buildTree_loop pf vertices faces s = Inr s' \<Longrightarrow> wf_mesh vertices faces"
proof (induction pf vertices faces s rule: buildTree_loop.induct)
  case (1 pf vertices f1 f2 f3 faces s)
  from "1.prems" obtain p1 p2 p3 where p: "vertex_at vertices f1 = Some p1" "vertex_at vertices f2 = Some p2"
    "vertex_at vertices f3 = Some p3"
    by (auto split: option.splits)
  from "1.prems" have "buildTree_loop pf vertices faces (face_step pf f1 f2 f3 p1 p2 p3 s) = Inr s'"
    by (simp add: p)
  from "1.IH"[OF p this] show ?case by (simp add: wf_mesh_def p)
next
  case (2 pf vertices s)
  show ?case by (simp add: wf_mesh_def)
qed simp_all

lemma buildTree_loop_result:
  "buildTree_loop pf vertices faces s = Inr s' \<Longrightarrow>
     (loop_inv s \<longrightarrow> loop_inv s')
   \<and> this s' = (this s)\<lparr>m_triangles := m_triangles (this s')\<rparr>
   \<and> map tri_indices (m_triangles (this s'))
       = map tri_indices (m_triangles (this s)) @ filter (\<lambda>f. \<not> degenerate_face pf vertices f) (face_list faces)"
proof (induction pf vertices faces s rule: buildTree_loop.induct)
  case (1 pf vertices f1 f2 f3 faces s)
  from "1.prems" obtain p1 p2 p3 where p: "vertex_at vertices f1 = Some p1" "vertex_at vertices f2 = Some p2"
    "vertex_at vertices f3 = Some p3"
    by (auto split: option.splits)
  let ?s1 = "face_step pf f1 f2 f3 p1 p2 p3 s"
  from "1.prems" have r: "buildTree_loop pf vertices faces ?s1 = Inr s'" by (simp add: p)
  note ih = "1.IH"[OF p r]
  have a: "loop_inv s \<longrightarrow> loop_inv s'"
  proof
    assume "loop_inv s"
    then have "loop_inv ?s1" by (rule face_step_inv)
    with ih show "loop_inv s'" by (simp only:)
  qed
  obtain X where X: "this ?s1 = (this s)\<lparr>m_triangles := X\<rparr>"
    using face_step_this[of pf f1 f2 f3 p1 p2 p3 s] by (rule that)
  from ih have "this s' = (this ?s1)\<lparr>m_triangles := m_triangles (this s')\<rparr>" by (rule conjunct1[OF conjunct2])
  then have b: "this s' = (this s)\<lparr>m_triangles := m_triangles (this s')\<rparr>"
    unfolding X by simp
  have c: "map tri_indices (m_triangles (this s'))
       = map tri_indices (m_triangles (this s)) @ filter (\<lambda>f. \<not> degenerate_face pf vertices f) (face_list (f1 # f2 # f3 # faces))"
    using conjunct2[OF conjunct2[OF ih]] face_step_indices[OF p, of pf s] by simp
  from a b c show ?case by (intro conjI)
next
  case (2 pf vertices s)
  then show ?case by simp
qed simp_all

section \<open>buildTree as a whole\<close>

lemma loop_inv_start: "loop_inv loop_start"
  by (simp add: loop_inv_def loop_start_def BVHTree_new_def slice_bb_def)

lemma set_bb_node_bb: "set_bb (node_bb t) t = t"
  by (cases t) (simp_all add: set_bb_def)

lemma buildTree_unfold:
  "buildTree pf vertices faces BVHTree_new = Inr (m_root, t0) \<longleftrightarrow>
     (\<exists>s. buildTree_loop pf vertices faces loop_start = Inr s
        \<and> m_root = fst (buildTreeRecursive pf (work s) 0 0)
        \<and> t0 = BVHTree_new\<lparr>m_triangles := m_triangles (this s),
                           m_depth := snd (buildTreeRecursive pf (work s) 0 0)\<rparr>)"
proof
  assume b: "buildTree pf vertices faces BVHTree_new = Inr (m_root, t0)"
  then obtain s where s: "buildTree_loop pf vertices faces loop_start = Inr s"
    by (auto simp: buildTree_def loop_start_def split: sum.splits)
  note r = buildTree_loop_result[OF s]
  from r loop_inv_start have inv: "loop_inv s" by blast
  from r have th: "this s = BVHTree_new\<lparr>m_triangles := m_triangles (this s)\<rparr>"
    by (simp add: loop_start_def)
  have md: "m_depth (this s) = 0" by (subst th) (simp add: BVHTree_new_def)
  obtain out md' where o: "buildTreeRecursive pf (work s) 0 0 = (out, md')"
    by (cases "buildTreeRecursive pf (work s) 0 0") auto
  have "node_bb out = outerBb s"
    using covers_node_bb[OF buildTreeRecursive_covers[of "work s" pf 0 0]] inv o
    by (simp add: loop_inv_def)
  then have sb: "set_bb (outerBb s) out = out" using set_bb_node_bb[of out] by simp
  from b s o md sb have "m_root = out" "t0 = (this s)\<lparr>m_depth := md'\<rparr>"
    by (simp_all add: buildTree_def loop_start_def)
  moreover have "(this s)\<lparr>m_depth := md'\<rparr> = BVHTree_new\<lparr>m_triangles := m_triangles (this s), m_depth := md'\<rparr>"
    by (subst th) simp
  ultimately show "\<exists>s. buildTree_loop pf vertices faces loop_start = Inr s
        \<and> m_root = fst (buildTreeRecursive pf (work s) 0 0)
        \<and> t0 = BVHTree_new\<lparr>m_triangles := m_triangles (this s),
                           m_depth := snd (buildTreeRecursive pf (work s) 0 0)\<rparr>"
    using s o by auto
next
  assume "\<exists>s. buildTree_loop pf vertices faces loop_start = Inr s
        \<and> m_root = fst (buildTreeRecursive pf (work s) 0 0)
        \<and> t0 = BVHTree_new\<lparr>m_triangles := m_triangles (this s),
                           m_depth := snd (buildTreeRecursive pf (work s) 0 0)\<rparr>"
  then obtain s where s: "buildTree_loop pf vertices faces loop_start = Inr s"
    and m: "m_root = fst (buildTreeRecursive pf (work s) 0 0)"
    and t: "t0 = BVHTree_new\<lparr>m_triangles := m_triangles (this s),
                           m_depth := snd (buildTreeRecursive pf (work s) 0 0)\<rparr>"
    by blast
  note r = buildTree_loop_result[OF s]
  from r loop_inv_start have inv: "loop_inv s" by blast
  from r have th: "this s = BVHTree_new\<lparr>m_triangles := m_triangles (this s)\<rparr>"
    by (simp add: loop_start_def)
  have md: "m_depth (this s) = 0" by (subst th) (simp add: BVHTree_new_def)
  obtain out md' where o: "buildTreeRecursive pf (work s) 0 0 = (out, md')"
    by (cases "buildTreeRecursive pf (work s) 0 0") auto
  have "node_bb out = outerBb s"
    using covers_node_bb[OF buildTreeRecursive_covers[of "work s" pf 0 0]] inv o
    by (simp add: loop_inv_def)
  then have sb: "set_bb (outerBb s) out = out" using set_bb_node_bb[of out] by simp
  have "(this s)\<lparr>m_depth := md'\<rparr> = BVHTree_new\<lparr>m_triangles := m_triangles (this s), m_depth := md'\<rparr>"
    by (subst th) simp
  then show "buildTree pf vertices faces BVHTree_new = Inr (m_root, t0)"
    using s o md sb m t by (simp add: buildTree_def loop_start_def)
qed

lemma buildTree_total:
  assumes "wf_mesh vertices faces"
  shows "\<exists>m_root t0. buildTree pf vertices faces BVHTree_new = Inr (m_root, t0)"
proof -
  from buildTree_loop_total[OF assms] obtain s where "buildTree_loop pf vertices faces loop_start = Inr s"
    by blast
  then show ?thesis unfolding buildTree_unfold by blast
qed

lemma buildTree_fresh:
  "buildTree pf vertices faces BVHTree_new = Inr (m_root, t0) \<Longrightarrow> fresh t0"
  unfolding buildTree_unfold by (auto simp: fresh_def BVHTree_new_def)

lemma BVHTree_ctor_unfold:
  "BVHTree_ctor pf vertices faces = Inr T \<longleftrightarrow>
     (\<exists>m_root t0. buildTree pf vertices faces BVHTree_new = Inr (m_root, t0) \<and> T = createCFTree m_root t0)"
  by (auto simp: BVHTree_ctor_def split: sum.splits)

lemma invoked_inhabited: "invoked pf wk wk' \<Longrightarrow> wk \<noteq> [] \<Longrightarrow> wk' \<noteq> []"
proof (induction rule: invoked.induct)
  case (self wk)
  then show ?case .
next
  case (left wk pf minCost bestSplitIdx bestAxis wl wr wk')
  from find_split_shrinks(3)[OF left.hyps(2,3,4)] left.IH show ?case by simp
next
  case (right wk pf minCost bestSplitIdx bestAxis wl wr wk')
  from find_split_shrinks(4)[OF right.hyps(2,3,4)] right.IH show ?case by simp
qed

lemma buildTree_facts:
  assumes "buildTree pf vertices faces BVHTree_new = Inr (m_root, t0)"
  shows "\<exists>s. loop_result pf vertices faces m_root t0 s"
proof -
  from assms obtain s where s: "buildTree_loop pf vertices faces loop_start = Inr s"
    and m: "m_root = fst (buildTreeRecursive pf (work s) 0 0)"
    and t: "t0 = BVHTree_new\<lparr>m_triangles := m_triangles (this s),
                           m_depth := snd (buildTreeRecursive pf (work s) 0 0)\<rparr>"
    unfolding buildTree_unfold by blast
  note r = buildTree_loop_result[OF s]
  from r loop_inv_start have inv: "loop_inv s" by blast
  from r have ix: "map tri_indices (m_triangles (this s)) = filter (\<lambda>f. \<not> degenerate_face pf vertices f) (face_list faces)"
    by (simp add: loop_start_def BVHTree_new_def)
  from inv have "length (map triangle (work s)) = length [0..<length (m_triangles (this s))]"
    unfolding loop_inv_def by metis
  then have len: "length (work s) = length (m_triangles (this s))" by simp
  show ?thesis
    by (rule exI[of _ s]) (simp add: loop_result_def s inv m t ix len)
qed

lemma leaves_inhabited_createCFTree_depth:
  "fresh t0 \<Longrightarrow> getMaxDepth (createCFTree m_root t0) = m_depth t0"
  by (simp add: getMaxDepth_def createCFTree_fresh)

text \<open>
  C10. For an empty face list, and for a face list all of whose faces are degenerate (by
  the test of the source, on whatever platform), the constructor returns a tree object: its node array holds the one record of a leaf
  with word0 = 0x80000000 (leaf flag, count 0), it has six limits, and the triangle-index
  list, the intersection data and the triangle store are empty.
\<close>

theorem all_degenerate_single_leaf:
  assumes "wf_mesh vertices faces" "list_all (degenerate_face pf vertices) (face_list faces)"
  shows "\<exists>T. BVHTree_ctor pf vertices faces = Inr T
     \<and> m_indexesOrTrilists T = [0x80000000, 0, 0, 0]
     \<and> length (m_limits T) = 6
     \<and> m_triIndexList T = []
     \<and> m_trianglesIntersectionData T = []
     \<and> m_triangles T = []"
proof -
  from buildTree_total[OF assms(1)] obtain m_root t0
    where b: "buildTree pf vertices faces BVHTree_new = Inr (m_root, t0)" by blast
  from buildTree_facts[OF b] obtain s where lr: "loop_result pf vertices faces m_root t0 s" ..
  then have s: "m_root = fst (buildTreeRecursive pf (work s) 0 0)"
    and tr: "map tri_indices (m_triangles t0) = filter (\<lambda>f. \<not> degenerate_face pf vertices f) (face_list faces)"
    and len: "length (work s) = length (m_triangles t0)"
    unfolding loop_result_def by blast+
  from assms(2) have "filter (\<lambda>f. \<not> degenerate_face pf vertices f) (face_list faces) = []"
    by (simp add: list_all_iff)
  with tr have e: "m_triangles t0 = []" by simp
  with len have w: "work s = []" by simp
  have m: "m_root = BVHLeaf (slice_bb []) []"
    unfolding s w by (simp add: buildTreeRecursive_leaf)
  note f = createCFTree_fresh[OF buildTree_fresh[OF b]]
  have "BVHTree_ctor pf vertices faces = Inr (createCFTree m_root t0)"
    unfolding BVHTree_ctor_unfold using b by blast
  moreover have "m_indexesOrTrilists (createCFTree m_root t0) = [0x80000000, 0, 0, 0]"
    unfolding m f by simp
  moreover have "length (m_limits (createCFTree m_root t0)) = 6"
    unfolding m f by (simp add: box_limits_def)
  moreover have "m_triIndexList (createCFTree m_root t0) = []"
    unfolding m f by simp
  moreover have "m_trianglesIntersectionData (createCFTree m_root t0) = []"
    unfolding f e by simp
  moreover have "m_triangles (createCFTree m_root t0) = []"
    unfolding f e by simp
  ultimately show ?thesis by blast
qed

lemma vertex_at_simps:
  "vertex_at [0, 0, 0, 1, 0, 0, 0, 1, 0] 0 = Some (Vec3 0 0 0)"
  "vertex_at [0, 0, 0, 1, 0, 0, 0, 1, 0] 1 = Some (Vec3 1 0 0)"
  "vertex_at [0, 0, 0, 1, 0, 0, 0, 1, 0] 2 = Some (Vec3 0 1 0)"
  by (simp_all add: vertex_at_def)

theorem all_degenerate_single_leaf_witness:
  "wf_mesh [0, 0, 0, 1, 0, 0, 0, 1, 0] [0, 0, 1] \<and> list_all (degenerate_face exact [0, 0, 0, 1, 0, 0, 0, 1, 0]) (face_list [0, 0, 1])
   \<and> (\<exists>T. BVHTree_ctor exact [0, 0, 0, 1, 0, 0, 0, 1, 0] [0, 0, 1] = Inr T
     \<and> m_indexesOrTrilists T = [0x80000000, 0, 0, 0]
     \<and> length (m_limits T) = 6
     \<and> m_triIndexList T = []
     \<and> m_trianglesIntersectionData T = []
     \<and> m_triangles T = [])"
proof -
  have wf: "wf_mesh [0, 0, 0, 1, 0, 0, 0, 1, 0] [0, 0, 1]"
    by (simp add: wf_mesh_def vertex_at_simps)
  have dg: "list_all (degenerate_face exact [0, 0, 0, 1, 0, 0, 0, 1, 0]) (face_list [0, 0, 1])"
    by (simp add: degenerate_face_def vertex_at_simps degenerate_def exact_def euclid_def)
  from wf dg all_degenerate_single_leaf[OF wf dg] show ?thesis by (intro conjI)
qed

text \<open>
  C7. A call of \<^verbatim>\<open>buildTreeRecursive\<close> on a slice of at most four items returns a leaf
  with the box of the slice and exactly the triangle indices of the slice, records the
  depth, and leads to no further call. With exactly four retained triangles the root is
  that leaf (no inner node), and \<^verbatim>\<open>getMaxDepth()\<close> is 0.
\<close>

theorem small_slice_is_leaf:
  "(length wk \<le> 4 \<longrightarrow>
      buildTreeRecursive pf wk depth mdepth = (BVHLeaf (slice_bb wk) (map triangle wk), max mdepth depth)
      \<and> (\<forall>wk'. invoked pf wk wk' \<longrightarrow> wk' = wk))
   \<and> (buildTree pf vertices faces BVHTree_new = Inr (m_root, t0) \<and> length (m_triangles t0) = 4 \<longrightarrow>
      m_root = BVHLeaf (node_bb m_root) [0, 1, 2, 3]
      \<and> num_nodes m_root = 1
      \<and> getMaxDepth (createCFTree m_root t0) = 0)"
proof (intro conjI impI allI)
  assume "length wk \<le> 4"
  then show "buildTreeRecursive pf wk depth mdepth = (BVHLeaf (slice_bb wk) (map triangle wk), max mdepth depth)"
    by (rule buildTreeRecursive_leaf)
next
  fix wk'
  assume l: "length wk \<le> 4" and "invoked pf wk wk'"
  from this(2) show "wk' = wk" by (cases rule: invoked.cases) (use l in simp_all)
next
  assume a: "buildTree pf vertices faces BVHTree_new = Inr (m_root, t0) \<and> length (m_triangles t0) = 4"
  then have b: "buildTree pf vertices faces BVHTree_new = Inr (m_root, t0)" by simp
  from buildTree_facts[OF b] obtain s where lr: "loop_result pf vertices faces m_root t0 s" ..
  then have inv: "loop_inv s"
    and e: "m_triangles t0 = m_triangles (this s)"
    and m: "m_root = fst (buildTreeRecursive pf (work s) 0 0)"
    and d: "m_depth t0 = snd (buildTreeRecursive pf (work s) 0 0)"
    and len: "length (work s) = length (m_triangles t0)"
    unfolding loop_result_def by blast+
  from len a have l4: "length (work s) \<le> 4" by simp
  have "[0..<4] = [0, 1, 2, 3::nat]" by (simp add: eval_nat_numeral)
  with inv e a have ts: "map triangle (work s) = [0, 1, 2, 3]"
    by (simp add: loop_inv_def)
  have r: "buildTreeRecursive pf (work s) 0 0 = (BVHLeaf (slice_bb (work s)) [0, 1, 2, 3], 0)"
    using buildTreeRecursive_leaf[OF l4, of pf 0 0] ts by simp
  show "m_root = BVHLeaf (node_bb m_root) [0, 1, 2, 3]" by (simp add: m r)
  show "num_nodes m_root = 1" by (simp add: m r)
  show "getMaxDepth (createCFTree m_root t0) = 0"
    using a buildTree_fresh[of pf vertices faces m_root t0]
    by (simp add: leaves_inhabited_createCFTree_depth d r)
qed

lemma face_012_retained:
  "\<not> degenerate_face exact [0, 0, 0, 1, 0, 0, 0, 1, 0] (0, 1, 2)"
  by (simp add: degenerate_face_def vertex_at_simps degenerate_def exact_def euclid_def)

theorem small_slice_is_leaf_witness:
  "length ([] :: AABB list) \<le> 4
   \<and> (\<exists>m_root t0. buildTree exact [0, 0, 0, 1, 0, 0, 0, 1, 0] [0, 1, 2, 0, 1, 2, 0, 1, 2, 0, 1, 2] BVHTree_new = Inr (m_root, t0)
        \<and> length (m_triangles t0) = 4
        \<and> m_root = BVHLeaf (node_bb m_root) [0, 1, 2, 3]
        \<and> num_nodes m_root = 1
        \<and> getMaxDepth (createCFTree m_root t0) = 0)"
proof -
  let ?V = "[0, 0, 0, 1, 0, 0, 0, 1, 0] :: real list"
  let ?F = "[0, 1, 2, 0, 1, 2, 0, 1, 2, 0, 1, 2] :: u32 list"
  have wf: "wf_mesh ?V ?F" by (simp add: wf_mesh_def vertex_at_simps)
  from buildTree_total[OF wf] obtain m_root t0
    where b: "buildTree exact ?V ?F BVHTree_new = Inr (m_root, t0)" by blast
  from buildTree_facts[OF b] obtain s where "loop_result exact ?V ?F m_root t0 s" ..
  then have "map tri_indices (m_triangles t0) = filter (\<lambda>f. \<not> degenerate_face exact ?V f) (face_list ?F)"
    unfolding loop_result_def by blast
  then have "length (map tri_indices (m_triangles t0)) = 4"
    by (simp add: face_012_retained)
  then have l: "length (m_triangles t0) = 4" by simp
  from small_slice_is_leaf[of "[]" exact 0 0 ?V ?F m_root t0] b l
  show ?thesis by auto
qed

text \<open>
  C5, as amended. For every mesh that retains at least one triangle, every leaf of the
  built tree holds at least one triangle index, and neither the first call of
  \<^verbatim>\<open>buildTreeRecursive\<close> (on the work list) nor any call it leads to is on an empty slice.
\<close>

theorem slices_and_leaves_inhabited:
  assumes "buildTree pf vertices faces BVHTree_new = Inr (m_root, t0)" "m_triangles t0 \<noteq> []"
  shows "leaves_inhabited m_root
     \<and> (\<exists>s. buildTree_loop pf vertices faces loop_start = Inr s
            \<and> (\<forall>wk'. invoked pf (work s) wk' \<longrightarrow> wk' \<noteq> []))"
proof -
  from buildTree_facts[OF assms(1)] obtain s where lr: "loop_result pf vertices faces m_root t0 s" ..
  then have s: "buildTree_loop pf vertices faces loop_start = Inr s"
    and m: "m_root = fst (buildTreeRecursive pf (work s) 0 0)"
    and len: "length (work s) = length (m_triangles t0)"
    unfolding loop_result_def by blast+
  from len assms(2) have ne: "work s \<noteq> []" by auto
  have "leaves_inhabited m_root"
    unfolding m by (rule covers_leaves_inhabited[OF buildTreeRecursive_covers ne])
  moreover have "\<forall>wk'. invoked pf (work s) wk' \<longrightarrow> wk' \<noteq> []"
    using invoked_inhabited ne by blast
  ultimately show ?thesis using s by blast
qed

theorem slices_and_leaves_inhabited_witness:
  "\<exists>m_root t0. buildTree exact [0, 0, 0, 1, 0, 0, 0, 1, 0] [0, 1, 2] BVHTree_new = Inr (m_root, t0)
     \<and> m_triangles t0 \<noteq> []
     \<and> leaves_inhabited m_root
     \<and> (\<exists>s. buildTree_loop exact [0, 0, 0, 1, 0, 0, 0, 1, 0] [0, 1, 2] loop_start = Inr s
            \<and> (\<forall>wk'. invoked exact (work s) wk' \<longrightarrow> wk' \<noteq> []))"
proof -
  let ?V = "[0, 0, 0, 1, 0, 0, 0, 1, 0] :: real list"
  let ?F = "[0, 1, 2] :: u32 list"
  have wf: "wf_mesh ?V ?F" by (simp add: wf_mesh_def vertex_at_simps)
  from buildTree_total[OF wf] obtain m_root t0
    where b: "buildTree exact ?V ?F BVHTree_new = Inr (m_root, t0)" by blast
  from buildTree_facts[OF b] obtain s where "loop_result exact ?V ?F m_root t0 s" ..
  then have "map tri_indices (m_triangles t0) = filter (\<lambda>f. \<not> degenerate_face exact ?V f) (face_list ?F)"
    unfolding loop_result_def by blast
  then have "length (map tri_indices (m_triangles t0)) = 1"
    by (simp add: face_012_retained)
  then have l: "m_triangles t0 \<noteq> []" by auto
  from slices_and_leaves_inhabited[OF b l] b l show ?thesis by blast
qed

text \<open>
  The claim as stated ("for every input mesh") fails on the empty mesh: the work list is
  empty, \<^verbatim>\<open>buildTreeRecursive\<close> is called on it, and the root is a leaf without triangles.
\<close>

theorem empty_mesh_empty_leaf:
  "buildTree exact [] [] BVHTree_new = Inr (BVHLeaf BoundingBox_new [], BVHTree_new)
   \<and> \<not> leaves_inhabited (BVHLeaf BoundingBox_new [])
   \<and> buildTree_loop exact [] [] loop_start = Inr loop_start
   \<and> work loop_start = []
   \<and> invoked exact (work loop_start) []"
proof -
  have "buildTreeRecursive exact [] 0 0 = (BVHLeaf (slice_bb []) [], 0)"
    by (simp add: buildTreeRecursive_leaf)
  then have "buildTree exact [] [] BVHTree_new = Inr (BVHLeaf BoundingBox_new [], BVHTree_new)"
    by (simp add: buildTree_def slice_bb_def set_bb_def BVHTree_new_def)
  moreover have "invoked exact (work loop_start) []"
    by (simp add: loop_start_def invoked.self)
  ultimately show ?thesis by (simp add: loop_start_def)
qed

section \<open>Boxes\<close>

lemma expand_box_assoc: "expand_box (expand_box a b) c = expand_box a (expand_box b c)"
  by (simp add: expand_box_def min.assoc max.assoc)

lemma expand_box_commute: "valid a \<Longrightarrow> valid b \<Longrightarrow> expand_box a b = expand_box b a"
  by (simp add: expand_box_def min.commute max.commute)

lemma expand_box_new_right: "expand_box b BoundingBox_new = b"
  by (simp add: expand_box_def BoundingBox_new_def)

lemma expand_box_new_absorb: "expand_box b (expand_box BoundingBox_new c) = expand_box b c"
  by (simp add: expand_box_def BoundingBox_new_def)

lemma slice_bb_union: "slice_bb wk = union_boxes (map bb wk)"
  by (simp add: slice_bb_def union_boxes_def fold_map comp_def)

lemma fold_expand_box:
  "fold (\<lambda>c b. expand_box b c) bs b0 = expand_box b0 (union_boxes bs)"
proof (induction bs arbitrary: b0)
  case Nil
  show ?case by (simp add: union_boxes_def expand_box_new_right)
next
  case (Cons c bs)
  have u: "union_boxes (c # bs) = expand_box (expand_box BoundingBox_new c) (union_boxes bs)"
    unfolding union_boxes_def fold_simps
    by (rule Cons.IH[unfolded union_boxes_def])
  have "fold (\<lambda>c b. expand_box b c) (c # bs) b0 = expand_box (expand_box b0 c) (union_boxes bs)"
    unfolding fold_simps by (rule Cons.IH)
  also have "expand_box b0 c = expand_box b0 (expand_box BoundingBox_new c)"
    by (rule expand_box_new_absorb[symmetric])
  also have "expand_box (expand_box b0 (expand_box BoundingBox_new c)) (union_boxes bs)
      = expand_box b0 (expand_box (expand_box BoundingBox_new c) (union_boxes bs))"
    by (rule expand_box_assoc)
  finally show ?case unfolding u .
qed

lemma union_boxes_append:
  "union_boxes (bs @ cs) = expand_box (union_boxes bs) (union_boxes cs)"
proof -
  have "union_boxes (bs @ cs) = fold (\<lambda>c b. expand_box b c) cs (union_boxes bs)"
    by (simp add: union_boxes_def)
  then show ?thesis by (simp only: fold_expand_box)
qed

lemma expand_box_invalid: "\<not> valid c \<Longrightarrow> expand_box b c = b"
  by (simp add: expand_box_def)

lemma expand_steps_commute:
  "(\<lambda>b. expand_box b c) \<circ> (\<lambda>b. expand_box b c') = (\<lambda>b. expand_box b c') \<circ> (\<lambda>b. expand_box b c)"
proof
  fix b
  have "expand_box (expand_box b c') c = expand_box (expand_box b c) c'"
  proof (cases "valid c")
    case False
    then have "\<And>d. expand_box d c = d" by (rule expand_box_invalid)
    then show ?thesis by (simp only:)
  next
    case c: True
    show ?thesis
    proof (cases "valid c'")
      case False
      then have "\<And>d. expand_box d c' = d" by (rule expand_box_invalid)
      then show ?thesis by (simp only:)
    next
      case True
      have "expand_box (expand_box b c') c = expand_box b (expand_box c' c)"
        by (rule expand_box_assoc)
      also have "expand_box c' c = expand_box c c'"
        by (rule expand_box_commute[OF True c])
      also have "expand_box b (expand_box c c') = expand_box (expand_box b c) c'"
        by (rule expand_box_assoc[symmetric])
      finally show ?thesis .
    qed
  qed
  then show "((\<lambda>b. expand_box b c) \<circ> (\<lambda>b. expand_box b c')) b = ((\<lambda>b. expand_box b c') \<circ> (\<lambda>b. expand_box b c)) b"
    by (simp only: comp_def)
qed

lemma union_boxes_mset: "mset bs = mset cs \<Longrightarrow> union_boxes bs = union_boxes cs"
  unfolding union_boxes_def
  by (rule fun_cong[OF fold_multiset_equiv]) (rule expand_steps_commute, assumption)

lemma slice_bb_split:
  assumes "mset wk = mset wl + mset wr"
  shows "slice_bb wk = expand_box (slice_bb wl) (slice_bb wr)"
proof -
  have "mset (map bb wk) = mset (map bb wl @ map bb wr)"
    using assms by simp
  then have "union_boxes (map bb wk) = union_boxes (map bb wl @ map bb wr)"
    by (rule union_boxes_mset)
  then show ?thesis by (simp add: slice_bb_union union_boxes_append)
qed

lemma covers_boxes_consistent:
  "covers wk t \<Longrightarrow> \<forall>a \<in> set wk. bb a = boxof (triangle a) \<Longrightarrow> boxes_consistent boxof t"
proof (induction rule: covers.induct)
  case (leaf wk)
  then have e: "map bb wk = map boxof (map triangle wk)" by simp
  show ?case unfolding boxes_consistent.simps slice_bb_union e ..
next
  case (inner wl wr wk l r)
  from arg_cong[OF inner.hyps(3), of set_mset]
  have "set wl \<subseteq> set wk" "set wr \<subseteq> set wk" by simp_all
  with inner have "boxes_consistent boxof l" "boxes_consistent boxof r" by blast+
  moreover have "slice_bb wk = expand_box (node_bb l) (node_bb r)"
    using slice_bb_split[OF inner.hyps(3)] covers_node_bb[OF inner.hyps(4)] covers_node_bb[OF inner.hyps(5)]
    by simp
  ultimately show ?case by simp
qed

lemma loop_inv_boxes:
  assumes "loop_inv s" "a \<in> set (work s)"
  shows "bb a = tri_bb (m_triangles (this s) ! triangle a)"
proof -
  from assms(2) obtain i where i: "i < length (work s)" "work s ! i = a"
    by (auto simp: in_set_conv_nth)
  from assms(1) have t: "map triangle (work s) = [0..<length (m_triangles (this s))]"
    and b: "map bb (work s) = map tri_bb (m_triangles (this s))"
    by (simp_all add: loop_inv_def)
  from arg_cong[OF t, of length] have len: "length (work s) = length (m_triangles (this s))"
    by simp
  have "triangle a = map triangle (work s) ! i" using i by simp
  also have "\<dots> = i" unfolding t using i len by simp
  finally have ti: "triangle a = i" .
  have "bb a = map bb (work s) ! i" using i by simp
  also have "\<dots> = tri_bb (m_triangles (this s) ! i)" unfolding b using i len by simp
  finally show ?thesis by (simp add: ti)
qed

text \<open>
  C6. In the tree \<^verbatim>\<open>buildTree\<close> returns, the box of every inner node is the union of the
  boxes of its two children, and the box of every leaf is the union of the boxes of the
  triangles it holds. (A union takes minima and maxima of coordinates, which do not round,
  so the equalities hold as they stand whatever the platform's arithmetic is.)
\<close>

theorem built_boxes_are_unions:
  assumes "buildTree pf vertices faces BVHTree_new = Inr (m_root, t0)"
  shows "boxes_consistent (\<lambda>i. tri_bb (m_triangles t0 ! i)) m_root"
proof -
  from buildTree_facts[OF assms] obtain s where lr: "loop_result pf vertices faces m_root t0 s" ..
  then have inv: "loop_inv s"
    and e: "m_triangles t0 = m_triangles (this s)"
    and m: "m_root = fst (buildTreeRecursive pf (work s) 0 0)"
    unfolding loop_result_def by blast+
  have "\<forall>a \<in> set (work s). bb a = tri_bb (m_triangles t0 ! triangle a)"
    using loop_inv_boxes[OF inv] by (simp add: e)
  then show ?thesis
    unfolding m
    by (rule covers_boxes_consistent[OF buildTreeRecursive_covers, of "work s" "\<lambda>i. tri_bb (m_triangles t0 ! i)"])
qed

lemma length_triangle_record: "length (triangle_record tr) = 16"
  by (simp add: triangle_record_def)

lemma concat_blocks_nth:
  assumes "\<forall>x \<in> set xs. length (f x) = n" "i < length xs"
  shows "take n (drop (n * i) (concat (map f xs))) = f (xs ! i)"
  using assms
proof (induction xs arbitrary: i)
  case Nil
  then show ?case by simp
next
  case (Cons x xs)
  show ?case
  proof (cases i)
    case 0
    then show ?thesis using Cons.prems by simp
  next
    case (Suc j)
    have "n * i = length (f x) + n * j" using Cons.prems(1) by (simp add: Suc)
    then have "take n (drop (n * i) (concat (map f (x # xs)))) = take n (drop (n * j) (concat (map f xs)))"
      by simp
    also have "\<dots> = f (xs ! j)"
      using Cons.prems Suc by (intro Cons.IH) auto
    finally show ?thesis by (simp add: Suc)
  qed
qed

lemma length_concat_blocks:
  "\<forall>x \<in> set xs. length (f x) = n \<Longrightarrow> length (concat (map f xs)) = n * length xs"
  by (induction xs) auto

text \<open>
  C8. On every platform, the loop body leaves the whole state (triangle store, work list,
  overall box) as it is on a face one of whose three cross products, as the source computes
  them, has zero length, and the loop reports no error on a well formed mesh. The
  retained triangles are the faces that pass this test, in their input order,
  and \<^verbatim>\<open>trianglesIntersectionData\<close> is the concatenation, in store order, of one record of
  sixteen floats (normal.xyz, d, e1.xyz, d1, e2.xyz, d2, e3.xyz, d3) per retained triangle.
\<close>

theorem degenerate_faces_skipped:
  assumes "wf_mesh vertices faces"
  shows "(\<forall>f1 f2 f3 point1 point2 point3 s.
            degenerate pf point1 point2 point3 \<longrightarrow> face_step pf f1 f2 f3 point1 point2 point3 s = s)
     \<and> (\<exists>T. BVHTree_ctor pf vertices faces = Inr T
          \<and> map tri_indices (m_triangles T) = filter (\<lambda>f. \<not> degenerate_face pf vertices f) (face_list faces)
          \<and> m_trianglesIntersectionData T = concat (map triangle_record (m_triangles T))
          \<and> length (m_trianglesIntersectionData T) = 16 * length (m_triangles T)
          \<and> (\<forall>i < length (m_triangles T).
                take 16 (drop (16 * i) (m_trianglesIntersectionData T)) = triangle_record (m_triangles T ! i)))"
proof -
  from buildTree_total[OF assms] obtain m_root t0
    where b: "buildTree pf vertices faces BVHTree_new = Inr (m_root, t0)" by blast
  from buildTree_facts[OF b] obtain s where "loop_result pf vertices faces m_root t0 s" ..
  then have ix: "map tri_indices (m_triangles t0) = filter (\<lambda>f. \<not> degenerate_face pf vertices f) (face_list faces)"
    unfolding loop_result_def by blast
  let ?T = "createCFTree m_root t0"
  note f = createCFTree_fresh[OF buildTree_fresh[OF b], of m_root]
  have c: "BVHTree_ctor pf vertices faces = Inr ?T"
    unfolding BVHTree_ctor_unfold using b by blast
  have blocks: "\<forall>tr \<in> set (m_triangles t0). length (triangle_record tr) = 16"
    by (simp add: length_triangle_record)
  have 1: "map tri_indices (m_triangles ?T) = filter (\<lambda>f. \<not> degenerate_face pf vertices f) (face_list faces)"
    by (simp add: f ix)
  have 2: "m_trianglesIntersectionData ?T = concat (map triangle_record (m_triangles ?T))"
    by (simp add: f)
  have 3: "length (m_trianglesIntersectionData ?T) = 16 * length (m_triangles ?T)"
    unfolding f by (rule length_concat_blocks[OF blocks])
  have 4: "\<forall>i < length (m_triangles ?T).
      take 16 (drop (16 * i) (m_trianglesIntersectionData ?T)) = triangle_record (m_triangles ?T ! i)"
    unfolding f using concat_blocks_nth[OF blocks] by blast
  have 0: "\<forall>f1 f2 f3 point1 point2 point3 s.
            degenerate pf point1 point2 point3 \<longrightarrow> face_step pf f1 f2 f3 point1 point2 point3 s = s"
    by (simp add: face_step_degenerate)
  from 0 c 1 2 3 4 show ?thesis by blast
qed

theorem degenerate_faces_skipped_witness:
  "wf_mesh [0, 0, 0, 1, 0, 0, 0, 1, 0] [0, 1, 2, 0, 0, 1]
   \<and> (\<exists>T. BVHTree_ctor exact [0, 0, 0, 1, 0, 0, 0, 1, 0] [0, 1, 2, 0, 0, 1] = Inr T
        \<and> map tri_indices (m_triangles T) = [(0, 1, 2)]
        \<and> length (m_trianglesIntersectionData T) = 16)"
proof -
  let ?V = "[0, 0, 0, 1, 0, 0, 0, 1, 0] :: real list"
  let ?F = "[0, 1, 2, 0, 0, 1] :: u32 list"
  have wf: "wf_mesh ?V ?F" by (simp add: wf_mesh_def vertex_at_simps)
  have dg: "degenerate_face exact ?V (0, 0, 1)"
    by (simp add: degenerate_face_def vertex_at_simps degenerate_def exact_def euclid_def)
  from degenerate_faces_skipped[OF wf] obtain T where c: "BVHTree_ctor exact ?V ?F = Inr T"
    and ix: "map tri_indices (m_triangles T) = filter (\<lambda>f. \<not> degenerate_face exact ?V f) (face_list ?F)"
    and l: "length (m_trianglesIntersectionData T) = 16 * length (m_triangles T)"
    by blast
  from ix have ix': "map tri_indices (m_triangles T) = [(0, 1, 2)]"
    by (simp add: face_012_retained dg)
  from arg_cong[OF ix', of length] l have l16: "length (m_trianglesIntersectionData T) = 16" by simp
  show ?thesis
    by (rule conjI[OF wf], rule exI[of _ T], intro conjI) (rule c ix' l16)+
qed

section \<open>Reading the flat arrays\<close>

lemma leaf_flag_word0: "leaf_flag (0x80000000 OR w)"
  by (simp add: leaf_flag_def bit_or_iff)

lemma leaf_flag_0: "\<not> leaf_flag 0"
  by (simp add: leaf_flag_def)

lemma leaf_count_word0:
  assumes "n < 2 ^ 31"
  shows "leaf_count (0x80000000 OR of_nat n) = n"
proof -
  have m: "(0x7FFFFFFF :: u32) = mask 31" by (simp add: mask_eq_exp_minus_1)
  have p: "(0x80000000 :: u32) = push_bit 31 1" by simp
  have "(0x80000000 OR of_nat n) AND (0x7FFFFFFF :: u32) = take_bit 31 (push_bit 31 1 OR of_nat n)"
    unfolding m p by (simp add: take_bit_eq_mask)
  also have "\<dots> = take_bit 31 (of_nat n :: u32)"
    by (simp add: take_bit_or take_bit_push_bit del: push_bit_of_1)
  also have "\<dots> = of_nat (take_bit 31 n)"
    by (simp add: take_bit_of_nat)
  also have "take_bit 31 n = n" using assms by (simp add: take_bit_nat_eq_self)
  finally have "leaf_count (0x80000000 OR of_nat n) = unat (of_nat n :: u32)"
    by (simp add: leaf_count_def)
  also have "\<dots> = n" using assms by (intro unat_of_nat32) simp
  finally show ?thesis .
qed

lemma tri_offset_le:
  assumes "k < num_nodes t"
  shows "tri_offset t k + length (own_triangles (preorder t ! k)) \<le> length (tri_list t)"
proof -
  have "preorder t = take k (preorder t) @ preorder t ! k # drop (Suc k) (preorder t)"
    using assms by (simp add: id_take_nth_drop length_preorder)
  then have "concat (map own_triangles (preorder t)) =
      concat (map own_triangles (take k (preorder t))) @ own_triangles (preorder t ! k)
      @ concat (map own_triangles (drop (Suc k) (preorder t)))"
    by (metis concat.simps(2) concat_append list.simps(9) map_append)
  then show ?thesis by (simp add: tri_list_preorder tri_offset_def)
qed

lemma block4_nth:
  assumes "take 4 (drop (4 * k) ws) = [a, b, c, d]"
  shows "4 * k + 3 < length ws" "ws ! (4 * k) = a" "ws ! (4 * k + 1) = b" "ws ! (4 * k + 2) = c"
    "ws ! (4 * k + 3) = d"
proof -
  from arg_cong[OF assms, of length] show "4 * k + 3 < length ws" by (simp add: min_def split: if_splits)
  show "ws ! (4 * k) = a" using nth_of_take_drop[OF assms, of 0] by simp
  show "ws ! (4 * k + 1) = b" using nth_of_take_drop[OF assms, of 1] by simp
  show "ws ! (4 * k + 2) = c" using nth_of_take_drop[OF assms, of 2] by simp
  show "ws ! (4 * k + 3) = d" using nth_of_take_drop[OF assms, of 3] by simp
qed

lemma flat_node_leaf:
  assumes "fresh t" "k < num_nodes m_root" "preorder m_root ! k = BVHLeaf b ts"
    "length (tri_list m_root) < 2 ^ 31"
  shows "take 4 (drop (4 * k) (m_indexesOrTrilists (createCFTree m_root t)))
           = [0x80000000 OR of_nat (length ts), 0, 0, of_nat (tri_offset m_root k)]"
    and "leaf_count (0x80000000 OR of_nat (length ts)) = length ts"
    and "unat (of_nat (tri_offset m_root k) :: u32) = tri_offset m_root k"
    and "tri_offset m_root k + length ts \<le> length (m_triIndexList (createCFTree m_root t))"
    and "take (length ts) (drop (tri_offset m_root k) (m_triIndexList (createCFTree m_root t))) = map of_nat ts"
proof -
  note f = createCFTree_fresh[OF assms(1), of m_root]
  show "take 4 (drop (4 * k) (m_indexesOrTrilists (createCFTree m_root t)))
           = [0x80000000 OR of_nat (length ts), 0, 0, of_nat (tri_offset m_root k)]"
    unfolding f using flat_words_nth[OF assms(2), of 0 0] assms(3) by simp
  from tri_offset_le[OF assms(2)] assms(3)
  have le: "tri_offset m_root k + length ts \<le> length (tri_list m_root)"
    by (simp add: own_triangles_def)
  with assms(4) have c: "length ts < 2 ^ 31" and o: "tri_offset m_root k < 2 ^ 32" by simp_all
  show "leaf_count (0x80000000 OR of_nat (length ts)) = length ts"
    by (rule leaf_count_word0[OF c])
  show "unat (of_nat (tri_offset m_root k) :: u32) = tri_offset m_root k"
    by (rule unat_of_nat32[OF o])
  show "tri_offset m_root k + length ts \<le> length (m_triIndexList (createCFTree m_root t))"
    unfolding f using le by simp
  have "take (length ts) (drop (tri_offset m_root k) (map of_nat (tri_list m_root)))
      = map of_nat (take (length ts) (drop (tri_offset m_root k) (tri_list m_root)))"
    by (simp add: take_map drop_map)
  then show "take (length ts) (drop (tri_offset m_root k) (m_triIndexList (createCFTree m_root t))) = map of_nat ts"
    unfolding f by (simp only: leaf_tri_range[OF assms(2,3)])
qed

lemma flat_node_inner:
  assumes "fresh t" "k < num_nodes m_root" "preorder m_root ! k = BVHInner b l r"
    "num_nodes m_root \<le> 2 ^ 32"
  shows "take 4 (drop (4 * k) (m_indexesOrTrilists (createCFTree m_root t)))
           = [0, of_nat (k + 1), of_nat (k + 1 + num_nodes l), 0]"
    and "unat (of_nat (k + 1) :: u32) = k + 1"
    and "unat (of_nat (k + 1 + num_nodes l) :: u32) = k + 1 + num_nodes l"
proof -
  note f = createCFTree_fresh[OF assms(1), of m_root]
  show "take 4 (drop (4 * k) (m_indexesOrTrilists (createCFTree m_root t)))
           = [0, of_nat (k + 1), of_nat (k + 1 + num_nodes l), 0]"
    unfolding f using flat_words_nth[OF assms(2), of 0 0] assms(3) by simp
  from preorder_children(1)[OF assms(2,3)] assms(4)
  have "k + 1 < 2 ^ 32" "k + 1 + num_nodes l < 2 ^ 32" by simp_all
  then show "unat (of_nat (k + 1) :: u32) = k + 1"
    and "unat (of_nat (k + 1 + num_nodes l) :: u32) = k + 1 + num_nodes l"
    by (simp_all only: unat_of_nat32)
qed

lemma length_face_list: "length (face_list fs) = length fs div 3"
  by (induction fs rule: face_list.induct) simp_all

lemma buildTree_bounds:
  assumes "buildTree pf vertices faces BVHTree_new = Inr (m_root, t0)" "length (m_triangles t0) < 2 ^ 31"
  shows "num_nodes m_root \<le> 2 ^ 32"
    and "length (tri_list m_root) < 2 ^ 31"
    and "mset (tri_list m_root) = mset [0..<length (m_triangles t0)]"
proof -
  from buildTree_facts[OF assms(1)] obtain s where lr: "loop_result pf vertices faces m_root t0 s" ..
  then have inv: "loop_inv s"
    and e: "m_triangles t0 = m_triangles (this s)"
    and m: "m_root = fst (buildTreeRecursive pf (work s) 0 0)"
    and len: "length (work s) = length (m_triangles t0)"
    unfolding loop_result_def by blast+
  note n = assms(2)
  have cov: "covers (work s) m_root" unfolding m by (rule buildTreeRecursive_covers)
  from inv have t: "map triangle (work s) = [0..<length (m_triangles (this s))]"
    unfolding loop_inv_def by blast
  show ms: "mset (tri_list m_root) = mset [0..<length (m_triangles t0)]"
    using covers_tri_list[OF cov] unfolding t e .
  from arg_cong[OF ms, of size] have tl: "length (tri_list m_root) = length (m_triangles t0)" by simp
  with n show "length (tri_list m_root) < 2 ^ 31" by simp
  show "num_nodes m_root \<le> 2 ^ 32"
  proof (cases "work s = []")
    case True
    then show ?thesis unfolding m by (simp add: buildTreeRecursive_leaf)
  next
    case False
    from covers_num_nodes[OF cov False] len n show ?thesis by simp
  qed
qed

lemma walk_subtree:
  assumes "fresh t" "num_nodes m_root \<le> 2 ^ 32" "length (tri_list m_root) < 2 ^ 31"
  shows "k < num_nodes m_root \<Longrightarrow> preorder m_root ! k = n \<Longrightarrow> num_nodes n \<le> fuel \<Longrightarrow>
     walk fuel (m_indexesOrTrilists (createCFTree m_root t)) (m_triIndexList (createCFTree m_root t)) k
       = Some (map of_nat (tri_list n))"
proof (induction n arbitrary: k fuel)
  case (BVHLeaf b ts)
  from BVHLeaf.prems(3) obtain fuel' where fuel: "fuel = Suc fuel'" by (cases fuel) auto
  note l = flat_node_leaf[OF assms(1) BVHLeaf.prems(1,2) assms(3)]
  note w = block4_nth[OF l(1)]
  show ?case
    unfolding fuel walk.simps
    by (simp only: w leaf_flag_word0 l(2) l(3) l(4) l(5) Let_def if_True tri_list.simps)
next
  case (BVHInner b l r)
  from BVHInner.prems(3) obtain fuel' where fuel: "fuel = Suc fuel'" by (cases fuel) auto
  note i = flat_node_inner[OF assms(1) BVHInner.prems(1,2) assms(2)]
  note w = block4_nth[OF i(1)]
  note ch = preorder_children[OF BVHInner.prems(1,2)]
  have kl: "k + 1 < num_nodes m_root" using ch(1) by simp
  have fl: "num_nodes l \<le> fuel'" and fr: "num_nodes r \<le> fuel'"
    using BVHInner.prems(3) fuel by simp_all
  have L: "walk fuel' (m_indexesOrTrilists (createCFTree m_root t)) (m_triIndexList (createCFTree m_root t)) (k + 1)
       = Some (map of_nat (tri_list l))"
    by (rule BVHInner.IH(1)[OF kl ch(2) fl])
  have R: "walk fuel' (m_indexesOrTrilists (createCFTree m_root t)) (m_triIndexList (createCFTree m_root t)) (k + 1 + num_nodes l)
       = Some (map of_nat (tri_list r))"
    by (rule BVHInner.IH(2)[OF ch(1) ch(3) fr])
  show ?case
    unfolding fuel walk.simps
    by (simp only: w leaf_flag_0 i(2) i(3) L R Let_def if_True if_False option.case tri_list.simps map_append)
qed

lemma inj_on_of_nat32: "\<forall>x \<in> A. x < 2 ^ 32 \<Longrightarrow> inj_on (of_nat :: nat \<Rightarrow> u32) A"
  by (rule inj_on_inverseI[where g = unat]) (simp add: unat_of_nat32)

text \<open>
  C1, as amended. For every mesh that retains fewer than \<open>2^31\<close> triangles: the flat
  arrays hold six limits and four words per node, in pre-order, the root first. The six limits of the
  node with flat index \<open>k\<close> are (xmin, xmax, ymin, ymax, zmin, zmax) of its box. If it is
  a leaf, its words are \<open>[w0, 0, 0, w3]\<close> with the top bit of \<open>w0\<close> set, its triangle count in
  the other bits of \<open>w0\<close>, and in \<open>w3\<close> the offset at which its triangle indices stand in
  the triangle-index list. If it is an inner node, its words are \<open>[0, w1, w2, 0]\<close> and \<open>w1\<close>, \<open>w2\<close>
  are the flat indices of its left and right child, both greater than \<open>k\<close> and below the
  number of nodes.
\<close>

theorem flat_layout:
  assumes "buildTree pf vertices faces BVHTree_new = Inr (m_root, t0)"
    and "BVHTree_ctor pf vertices faces = Inr T"
    and "length (m_triangles t0) < 2 ^ 31"
    and "k < num_nodes m_root"
  shows "preorder m_root ! 0 = m_root
    \<and> length (m_limits T) = 6 * num_nodes m_root
    \<and> length (m_indexesOrTrilists T) = 4 * num_nodes m_root
    \<and> take 6 (drop (6 * k) (m_limits T)) = box_limits (node_bb (preorder m_root ! k))
    \<and> (case preorder m_root ! k of
         BVHLeaf b ts \<Rightarrow>
           (\<exists>w0 w3. take 4 (drop (4 * k) (m_indexesOrTrilists T)) = [w0, 0, 0, w3]
              \<and> leaf_flag w0 \<and> leaf_count w0 = length ts
              \<and> unat w3 + length ts \<le> length (m_triIndexList T)
              \<and> take (length ts) (drop (unat w3) (m_triIndexList T)) = map of_nat ts)
       | BVHInner b l r \<Rightarrow>
           (\<exists>w1 w2. take 4 (drop (4 * k) (m_indexesOrTrilists T)) = [0, w1, w2, 0]
              \<and> preorder m_root ! unat w1 = l \<and> preorder m_root ! unat w2 = r
              \<and> k < unat w1 \<and> unat w1 < num_nodes m_root
              \<and> k < unat w2 \<and> unat w2 < num_nodes m_root))"
proof -
  from assms(1,2) have T: "T = createCFTree m_root t0"
    by (simp add: BVHTree_ctor_def)
  note fr = buildTree_fresh[OF assms(1)]
  note f = createCFTree_fresh[OF fr, of m_root]
  note bd = buildTree_bounds[OF assms(1,3)]
  have 1: "preorder m_root ! 0 = m_root" by (rule hd_preorder)
  have 2: "length (m_limits T) = 6 * num_nodes m_root"
    unfolding T f by (rule length_flat_limits)
  have 3: "length (m_indexesOrTrilists T) = 4 * num_nodes m_root"
    unfolding T f by (rule length_flat_words)
  have 4: "take 6 (drop (6 * k) (m_limits T)) = box_limits (node_bb (preorder m_root ! k))"
    unfolding T f by (rule flat_limits_nth[OF assms(4)])
  have 5: "(case preorder m_root ! k of
         BVHLeaf b ts \<Rightarrow>
           (\<exists>w0 w3. take 4 (drop (4 * k) (m_indexesOrTrilists T)) = [w0, 0, 0, w3]
              \<and> leaf_flag w0 \<and> leaf_count w0 = length ts
              \<and> unat w3 + length ts \<le> length (m_triIndexList T)
              \<and> take (length ts) (drop (unat w3) (m_triIndexList T)) = map of_nat ts)
       | BVHInner b l r \<Rightarrow>
           (\<exists>w1 w2. take 4 (drop (4 * k) (m_indexesOrTrilists T)) = [0, w1, w2, 0]
              \<and> preorder m_root ! unat w1 = l \<and> preorder m_root ! unat w2 = r
              \<and> k < unat w1 \<and> unat w1 < num_nodes m_root
              \<and> k < unat w2 \<and> unat w2 < num_nodes m_root))"
  proof (cases "preorder m_root ! k")
    case (BVHLeaf b ts)
    note l = flat_node_leaf[OF fr assms(4) BVHLeaf bd(2)]
    have "take 4 (drop (4 * k) (m_indexesOrTrilists T)) = [0x80000000 OR of_nat (length ts), 0, 0, of_nat (tri_offset m_root k)]
       \<and> leaf_flag (0x80000000 OR of_nat (length ts)) \<and> leaf_count (0x80000000 OR of_nat (length ts)) = length ts
       \<and> unat (of_nat (tri_offset m_root k) :: u32) + length ts \<le> length (m_triIndexList T)
       \<and> take (length ts) (drop (unat (of_nat (tri_offset m_root k) :: u32)) (m_triIndexList T)) = map of_nat ts"
      unfolding T l(3) using l(1,2,4,5) leaf_flag_word0 by (intro conjI)
    then show ?thesis unfolding BVHLeaf BVHNode.case by (intro exI)
  next
    case (BVHInner b l r)
    note i = flat_node_inner[OF fr assms(4) BVHInner bd(1)]
    note ch = preorder_children[OF assms(4) BVHInner]
    have "take 4 (drop (4 * k) (m_indexesOrTrilists T)) = [0, of_nat (k + 1), of_nat (k + 1 + num_nodes l), 0]
       \<and> preorder m_root ! unat (of_nat (k + 1) :: u32) = l
       \<and> preorder m_root ! unat (of_nat (k + 1 + num_nodes l) :: u32) = r
       \<and> k < unat (of_nat (k + 1) :: u32) \<and> unat (of_nat (k + 1) :: u32) < num_nodes m_root
       \<and> k < unat (of_nat (k + 1 + num_nodes l) :: u32) \<and> unat (of_nat (k + 1 + num_nodes l) :: u32) < num_nodes m_root"
      unfolding T i(2) i(3) using i(1) ch by (intro conjI) simp_all
    then show ?thesis unfolding BVHInner BVHNode.case by (intro exI)
  qed
  from 1 2 3 4 5 show ?thesis by (intro conjI)
qed

text \<open>
  C2, as amended. For every mesh that retains fewer than \<open>2^31\<close> triangles, the walk
  from flat index 0 (with fuel for every node) returns the whole triangle-index list: each leaf
  contributes its own range of the list, the ranges follow one another, and the list
  holds every retained triangle index exactly once.
\<close>

theorem walk_visits_each_triangle_once:
  assumes "buildTree pf vertices faces BVHTree_new = Inr (m_root, t0)"
    and "BVHTree_ctor pf vertices faces = Inr T"
    and "length (m_triangles t0) < 2 ^ 31"
  shows "(\<forall>fuel \<ge> num_nodes m_root.
            walk fuel (m_indexesOrTrilists T) (m_triIndexList T) 0 = Some (m_triIndexList T))
     \<and> mset (m_triIndexList T) = mset (map of_nat [0..<length (m_triangles T)])
     \<and> distinct (m_triIndexList T)
     \<and> (\<forall>k < num_nodes m_root. \<forall>b ts. preorder m_root ! k = BVHLeaf b ts \<longrightarrow>
            take (length ts) (drop (tri_offset m_root k) (m_triIndexList T)) = map of_nat ts)"
proof -
  from assms(1,2) have T: "T = createCFTree m_root t0"
    by (simp add: BVHTree_ctor_def)
  note fr = buildTree_fresh[OF assms(1)]
  note f = createCFTree_fresh[OF fr, of m_root]
  note bd = buildTree_bounds[OF assms(1,3)]
  have 1: "\<forall>fuel \<ge> num_nodes m_root.
            walk fuel (m_indexesOrTrilists T) (m_triIndexList T) 0 = Some (m_triIndexList T)"
  proof (intro allI impI)
    fix fuel assume "num_nodes m_root \<le> fuel"
    from walk_subtree[OF fr bd(1,2) num_nodes_pos hd_preorder this]
    show "walk fuel (m_indexesOrTrilists T) (m_triIndexList T) 0 = Some (m_triIndexList T)"
      unfolding T f(3) .
  qed
  have 2: "mset (m_triIndexList T) = mset (map of_nat [0..<length (m_triangles T)])"
    unfolding T f using bd(3) by (simp only: mset_map)
  have "distinct (tri_list m_root)"
    using bd(3) by (metis distinct_upt mset_eq_imp_distinct_iff)
  moreover have "\<forall>x \<in> set (tri_list m_root). x < 2 ^ 32"
  proof
    fix x assume "x \<in> set (tri_list m_root)"
    then have "x \<in> set [0..<length (m_triangles t0)]"
      using bd(3) by (metis mset_eq_setD)
    with assms(3) show "x < 2 ^ 32" by simp
  qed
  ultimately have 3: "distinct (m_triIndexList T)"
    unfolding T f by (simp add: distinct_map inj_on_of_nat32)
  have 4: "\<forall>k < num_nodes m_root. \<forall>b ts. preorder m_root ! k = BVHLeaf b ts \<longrightarrow>
            take (length ts) (drop (tri_offset m_root k) (m_triIndexList T)) = map of_nat ts"
    unfolding T using flat_node_leaf(5)[OF fr _ _ bd(2)] by blast
  from 1 2 3 4 show ?thesis by (intro conjI)
qed

lemma valid_slice_bb: "valid (slice_bb wk) \<longleftrightarrow> (\<exists>a \<in> set wk. valid (bb a))"
proof (induction wk rule: rev_induct)
  case Nil
  show ?case by (simp add: slice_bb_def BoundingBox_new_def)
next
  case (snoc a wk)
  then show ?case by (auto simp: slice_bb_snoc valid_expand_box)
qed

lemma slice_bb_Nil: "slice_bb [] = BoundingBox_new"
  by (simp add: slice_bb_def)

lemma fold_expand_slice:
  "fold (\<lambda>a b. expand_box b (bb a)) wk b0 = expand_box b0 (slice_bb wk)"
  using fold_expand_box[of "map bb wk" b0]
  by (simp add: slice_bb_union fold_map comp_def)

lemma bucket_step_app:
  "bucket_step pf axis start rng v (bs, cs) =
     (bs[nat (item_index pf axis start rng v) := expand_box (bs ! nat (item_index pf axis start rng v)) (bb v)],
      cs[nat (item_index pf axis start rng v) := cs ! nat (item_index pf axis start rng v) + 1])"
  by (simp add: bucket_step_def item_index_def Let_def)

lemma item_index_nat: "nat (item_index pf axis start rng a) = k \<longleftrightarrow> item_index pf axis start rng a = int k"
  using bucket_index_range[of pf "axis_coord axis (getCentroid pf (bb a))" start rng]
  by (auto simp: item_index_def)

lemma item_index_less: "nat (item_index pf axis start rng a) < 32"
  using bucket_index_range[of pf "axis_coord axis (getCentroid pf (bb a))" start rng]
  by (auto simp: item_index_def)

lemma bucket_fold_exact:
  "fold (bucket_step pf axis start rng) wk (bs, cs) = (bs', cs') \<Longrightarrow>
   length bs = 32 \<Longrightarrow> length cs = 32 \<Longrightarrow> k < 32 \<Longrightarrow>
     cs' ! k = cs ! k + of_nat (length (filter (\<lambda>a. item_index pf axis start rng a = int k) wk))
   \<and> bs' ! k = expand_box (bs ! k) (slice_bb (filter (\<lambda>a. item_index pf axis start rng a = int k) wk))"
proof (induction wk arbitrary: bs cs)
  case Nil
  then show ?case by (simp add: slice_bb_Nil expand_box_new_right)
next
  case (Cons a wk)
  let ?ix = "nat (item_index pf axis start rng a)"
  let ?bs1 = "bs[?ix := expand_box (bs ! ?ix) (bb a)]"
  let ?cs1 = "cs[?ix := cs ! ?ix + 1]"
  let ?W = "filter (\<lambda>a. item_index pf axis start rng a = int k) wk"
  from Cons.prems(1) have f: "fold (bucket_step pf axis start rng) wk (?bs1, ?cs1) = (bs', cs')"
    by (simp add: bucket_step_app)
  have l1: "length ?bs1 = 32" and l2: "length ?cs1 = 32" using Cons.prems(2,3) by simp_all
  from Cons.IH[OF f l1 l2 Cons.prems(4)]
  have c: "cs' ! k = ?cs1 ! k + of_nat (length ?W)"
    and b: "bs' ! k = expand_box (?bs1 ! k) (slice_bb ?W)" by simp_all
  show ?case
  proof (cases "?ix = k")
    case True
    then have ik: "item_index pf axis start rng a = int k" by (simp add: item_index_nat)
    have "slice_bb (a # ?W) = fold (\<lambda>a b. expand_box b (bb a)) ?W (expand_box BoundingBox_new (bb a))"
      by (simp add: slice_bb_def)
    also have "\<dots> = expand_box (expand_box BoundingBox_new (bb a)) (slice_bb ?W)"
      by (rule fold_expand_slice)
    finally have s: "slice_bb (a # ?W) = expand_box (expand_box BoundingBox_new (bb a)) (slice_bb ?W)" .
    have "expand_box (bs ! k) (slice_bb (a # ?W))
        = expand_box (expand_box (bs ! k) (expand_box BoundingBox_new (bb a))) (slice_bb ?W)"
      unfolding s by (rule expand_box_assoc[symmetric])
    then have "expand_box (bs ! k) (slice_bb (a # ?W)) = expand_box (expand_box (bs ! k) (bb a)) (slice_bb ?W)"
      by (simp only: expand_box_new_absorb)
    moreover have "?bs1 ! k = expand_box (bs ! k) (bb a)" "?cs1 ! k = cs ! k + 1"
      using True Cons.prems(2,3,4) by simp_all
    ultimately show ?thesis using c b by (simp add: ik)
  next
    case False
    then have "item_index pf axis start rng a \<noteq> int k" by (simp add: item_index_nat)
    moreover have "?bs1 ! k = bs ! k" "?cs1 ! k = cs ! k" using False by simp_all
    ultimately show ?thesis using c b by simp
  qed
qed

text \<open>The buckets and counters after "Sort bbs into buckets".\<close>

lemma buckets_exact:
  assumes "fold (bucket_step pf axis start rng) wk (replicate BUCKETS BoundingBox_new, replicate BUCKETS 0) = (bs, cs)"
    and "k < 32"
  shows "cs ! k = of_nat (length (filter (\<lambda>a. item_index pf axis start rng a = int k) wk))"
    and "bs ! k = slice_bb (filter (\<lambda>a. item_index pf axis start rng a = int k) wk)"
proof -
  note e = bucket_fold_exact[OF assms(1) _ _ assms(2)]
  have n: "expand_box BoundingBox_new (slice_bb w) = slice_bb w" for w
    using fold_expand_slice[of w BoundingBox_new] by (simp add: slice_bb_def)
  show "cs ! k = of_nat (length (filter (\<lambda>a. item_index pf axis start rng a = int k) wk))"
    using e assms(2) by (simp add: BUCKETS_def)
  show "bs ! k = slice_bb (filter (\<lambda>a. item_index pf axis start rng a = int k) wk)"
    using e assms(2) by (simp add: BUCKETS_def n)
qed

lemma filter_union_mset:
  "\<forall>a \<in> set wk. \<not> (P a \<and> Q a) \<Longrightarrow>
   mset (filter (\<lambda>a. P a \<or> Q a) wk) = mset (filter P wk) + mset (filter Q wk)"
  by (induction wk) auto

text \<open>The box and the count a side of a split gathers from the buckets \<open>lo..<hi\<close>, when
  every item of the slice has a valid box.\<close>

lemma side_fold_exact:
  assumes bf: "fold (bucket_step pf axis start rng) wk (replicate BUCKETS BoundingBox_new, replicate BUCKETS 0) = (bs, cs)"
    and av: "\<forall>a \<in> set wk. valid (bb a)"
  shows "lo \<le> hi \<Longrightarrow> hi \<le> 32 \<Longrightarrow>
     fold (side_step bs cs) [lo..<hi] (BoundingBox_new, 0) =
       (slice_bb (filter (\<lambda>a. int lo \<le> item_index pf axis start rng a \<and> item_index pf axis start rng a < int hi) wk),
        of_nat (length (filter (\<lambda>a. int lo \<le> item_index pf axis start rng a \<and> item_index pf axis start rng a < int hi) wk)))"
proof (induction hi)
  case 0
  then show ?case by (simp add: slice_bb_Nil)
next
  case (Suc hi)
  let ?idx = "item_index pf axis start rng"
  let ?In = "\<lambda>h a. int lo \<le> ?idx a \<and> ?idx a < int h"
  show ?case
  proof (cases "lo = Suc hi")
    case True
    have "filter (?In (Suc hi)) wk = []" using True by (auto simp: filter_empty_conv)
    then show ?thesis using True by (simp add: slice_bb_Nil)
  next
    case False
    with Suc.prems have lo: "lo \<le> hi" and hi: "hi < 32" by simp_all
    have ih: "fold (side_step bs cs) [lo..<hi] (BoundingBox_new, 0)
        = (slice_bb (filter (?In hi) wk), of_nat (length (filter (?In hi) wk)))"
      using Suc.IH lo hi by simp
    let ?W = "filter (\<lambda>a. ?idx a = int hi) wk"
    note bk = buckets_exact[OF bf hi]
    have split: "mset (filter (?In (Suc hi)) wk) = mset (filter (?In hi) wk) + mset ?W"
    proof -
      have "filter (?In (Suc hi)) wk = filter (\<lambda>a. ?In hi a \<or> ?idx a = int hi) wk"
        using lo by (intro filter_cong) auto
      moreover have "mset (filter (\<lambda>a. ?In hi a \<or> ?idx a = int hi) wk)
          = mset (filter (?In hi) wk) + mset ?W"
        by (rule filter_union_mset) auto
      ultimately show ?thesis by (simp only:)
    qed
    have len: "length (filter (?In (Suc hi)) wk) = length (filter (?In hi) wk) + length ?W"
      using arg_cong[OF split, of size] by (simp only: size_union size_mset)
    have box: "slice_bb (filter (?In (Suc hi)) wk) = expand_box (slice_bb (filter (?In hi) wk)) (slice_bb ?W)"
      by (rule slice_bb_split[OF split])
    have step: "fold (side_step bs cs) [lo..<Suc hi] (BoundingBox_new, 0)
        = side_step bs cs hi (slice_bb (filter (?In hi) wk), of_nat (length (filter (?In hi) wk)))"
      using lo by (simp add: ih)
    show ?thesis
    proof (cases "isValid (bs ! hi)")
      case True
      then have v: "isValid (slice_bb ?W)" by (simp only: bk)
      show ?thesis
        unfolding step side_step_app
        by (simp only: bk v not_True_eq_False if_False box len of_nat_add)
    next
      case False
      then have nv: "isValid (slice_bb ?W) = False" by (simp only: bk)
      then have "\<not> valid (slice_bb ?W)" by (simp add: isValid_def)
      then have w: "?W = []" using av by (auto simp: valid_slice_bb filter_empty_conv)
      have box': "slice_bb (filter (?In (Suc hi)) wk) = slice_bb (filter (?In hi) wk)"
        unfolding box w by (simp only: slice_bb_Nil expand_box_new_right)
      have len': "length (filter (?In (Suc hi)) wk) = length (filter (?In hi) wk)"
        unfolding len w by simp
      show ?thesis
        unfolding step side_step_app
        by (simp only: bk nv not_False_eq_True if_True box' len')
    qed
  qed
qed

section \<open>The split search\<close>

lemma sint_of_nat32:
  assumes "n < 2 ^ 31"
  shows "sint (of_nat n :: i32) = int n"
proof -
  have "sint (of_nat n :: i32) = signed_take_bit 31 (int n)"
    by (simp add: signed_of_nat)
  also have "\<dots> = int n"
    by (rule signed_take_bit_int_eq_self) (use assms in simp_all)
  finally show ?thesis .
qed

lemma item_index_bounds:
  "0 \<le> item_index pf axis start rng a" "item_index pf axis start rng a < 32"
  using bucket_index_range[of pf "axis_coord axis (getCentroid pf (bb a))" start rng]
  by (simp_all add: item_index_def)

lemma sides_exact:
  assumes bf: "fold (bucket_step pf axis (axis_start b axis) (axis_extent pf b axis)) wk
        (replicate BUCKETS BoundingBox_new, replicate BUCKETS 0) = (bs, cs)"
    and av: "\<forall>a \<in> set wk. valid (bb a)"
    and i: "i \<le> 32"
  shows "fold (side_step bs cs) [0..<i] (BoundingBox_new, 0)
           = (slice_bb (left_items pf b wk (axis, i)), of_nat (length (left_items pf b wk (axis, i))))"
    and "fold (side_step bs cs) [i..<BUCKETS] (BoundingBox_new, 0)
           = (slice_bb (right_items pf b wk (axis, i)), of_nat (length (right_items pf b wk (axis, i))))"
proof -
  let ?idx = "item_index pf axis (axis_start b axis) (axis_extent pf b axis)"
  have l: "filter (\<lambda>a. int 0 \<le> ?idx a \<and> ?idx a < int i) wk = left_items pf b wk (axis, i)"
    unfolding left_items_def by (intro filter_cong) (simp_all add: item_index_bounds)
  have r: "filter (\<lambda>a. int i \<le> ?idx a \<and> ?idx a < int 32) wk = right_items pf b wk (axis, i)"
    unfolding right_items_def by (intro filter_cong) (simp_all add: item_index_bounds)
  show "fold (side_step bs cs) [0..<i] (BoundingBox_new, 0)
           = (slice_bb (left_items pf b wk (axis, i)), of_nat (length (left_items pf b wk (axis, i))))"
    using side_fold_exact[OF bf av, of 0 i] i unfolding l by simp
  show "fold (side_step bs cs) [i..<BUCKETS] (BoundingBox_new, 0)
           = (slice_bb (right_items pf b wk (axis, i)), of_nat (length (right_items pf b wk (axis, i))))"
    using side_fold_exact[OF bf av, of i 32] i unfolding r BUCKETS_def by simp
qed

lemma split_step_cand_step:
  assumes bf: "fold (bucket_step pf axis (axis_start b axis) (axis_extent pf b axis)) wk
        (replicate BUCKETS BoundingBox_new, replicate BUCKETS 0) = (bs, cs)"
    and av: "\<forall>a \<in> set wk. valid (bb a)"
    and n: "length wk < 2 ^ 31"
    and i: "i \<le> 32"
    and sk: "\<not> axis_skipped pf b axis"
  shows "split_step pf bs cs axis i st = cand_step pf b wk (axis, i) st"
proof -
  obtain mc si ax where st: "st = (mc, si, ax)" by (cases st) auto
  note s = sides_exact[OF bf av i]
  have "length (left_items pf b wk (axis, i)) \<le> length wk" "length (right_items pf b wk (axis, i)) \<le> length wk"
    by (simp_all add: left_items_def right_items_def)
  with n have ll: "length (left_items pf b wk (axis, i)) < 2 ^ 31"
    and lr: "length (right_items pf b wk (axis, i)) < 2 ^ 31" by simp_all
  show ?thesis
    unfolding split_step_def cand_step_def st s prod.case sint_of_nat32[OF ll] sint_of_nat32[OF lr]
    by (simp add: candidate_ok_def candidate_cost_def sk Let_def)
qed

lemma cand_step_skipped:
  "axis_skipped pf b axis \<Longrightarrow> cand_step pf b wk (axis, i) st = st"
  by (cases st) (simp add: cand_step_def candidate_ok_def)

lemma axis_step_cand_steps:
  assumes av: "\<forall>a \<in> set wk. valid (bb a)" and n: "length wk < 2 ^ 31"
  shows "axis_step pf b wk axis st = fold (cand_step pf b wk) (map (\<lambda>i. (axis, i)) [1..<32]) st"
proof (cases "axis_skipped pf b axis")
  case True
  have "fold (cand_step pf b wk) (map (\<lambda>i. (axis, i)) is) st = st" for "is"
    by (induction "is") (simp_all add: cand_step_skipped[OF True])
  moreover have "axis_step pf b wk axis st = st"
    using True by (simp add: axis_step_def axis_skipped_def axis_extent_def Let_def)
  ultimately show ?thesis by simp
next
  case False
  obtain bs cs where bf: "fold (bucket_step pf axis (axis_start b axis) (axis_extent pf b axis)) wk
        (replicate BUCKETS BoundingBox_new, replicate BUCKETS 0) = (bs, cs)"
    by (cases "fold (bucket_step pf axis (axis_start b axis) (axis_extent pf b axis)) wk
        (replicate BUCKETS BoundingBox_new, replicate BUCKETS 0)") auto
  have a: "axis_step pf b wk axis st = fold (split_step pf bs cs axis) [1..<BUCKETS] st"
    using False bf
    by (simp add: axis_step_def axis_skipped_def axis_extent_def axis_start_def Let_def)
  have "\<forall>i \<in> set is. i \<le> 32 \<Longrightarrow>
      fold (split_step pf bs cs axis) is st' = fold (cand_step pf b wk) (map (\<lambda>i. (axis, i)) is) st'" for "is" st'
    by (induction "is" arbitrary: st') (simp_all add: split_step_cand_step[OF bf av n _ False])
  from this[of "[1..<32]" st] show ?thesis unfolding a BUCKETS_def by simp
qed

lemma find_split_cand_steps:
  assumes av: "\<forall>a \<in> set wk. valid (bb a)" and n: "length wk < 2 ^ 31"
  shows "find_split pf b wk = fold (cand_step pf b wk) candidates (baseline pf b wk, - 1, - 1)"
  by (simp add: find_split_def candidates_def baseline_def axis_step_cand_steps[OF av n] Let_def)

lemma search_inv_step:
  assumes "search_inv pf b wk tried st"
  shows "search_inv pf b wk (tried @ [c]) (cand_step pf b wk c st)"
proof -
  obtain mc si ax where st: "st = (mc, si, ax)" by (cases st) auto
  let ?ok = "candidate_ok pf b wk" and ?cost = "candidate_cost pf b wk" and ?m0 = "baseline pf b wk"
  from assms consider
    (none) "ax = - 1" "si = - 1" "mc = ?m0" "\<forall>c \<in> set tried. ?ok c \<longrightarrow> ?m0 \<le> ?cost c"
  | (some) pre c0 post where "tried = pre @ c0 # post" "ax = fst c0" "si = int (snd c0)"
      "?ok c0" "mc = ?cost c0" "mc < ?m0" "\<forall>c' \<in> set pre. ?ok c' \<longrightarrow> mc < ?cost c'"
      "\<forall>c' \<in> set post. ?ok c' \<longrightarrow> mc \<le> ?cost c'"
    unfolding search_inv_def st by auto
  then show ?thesis
  proof cases
    case none
    show ?thesis
    proof (cases "?ok c \<and> ?cost c < mc")
      case True
      have "\<forall>c' \<in> set tried. ?ok c' \<longrightarrow> ?cost c < ?cost c'"
        using none True by fastforce
      then have "\<exists>pre c1 post. tried @ [c] = pre @ c1 # post \<and> fst c = fst c1 \<and> int (snd c) = int (snd c1)
          \<and> ?ok c1 \<and> ?cost c = ?cost c1 \<and> ?cost c < ?m0
          \<and> (\<forall>c' \<in> set pre. ?ok c' \<longrightarrow> ?cost c < ?cost c')
          \<and> (\<forall>c' \<in> set post. ?ok c' \<longrightarrow> ?cost c \<le> ?cost c')"
        using True none(3)
        by (intro exI[of _ tried] exI[of _ c] exI[of _ "[]"]) simp
      then show ?thesis
        unfolding search_inv_def st cand_step_def using True by simp
    next
      case False
      then have "cand_step pf b wk c st = st" by (simp add: cand_step_def st)
      moreover have "\<forall>c' \<in> set (tried @ [c]). ?ok c' \<longrightarrow> ?m0 \<le> ?cost c'"
        using none False by auto
      ultimately show ?thesis
        unfolding search_inv_def st using none by simp
    qed
  next
    case some
    show ?thesis
    proof (cases "?ok c \<and> ?cost c < mc")
      case True
      have "\<forall>c' \<in> set tried. ?ok c' \<longrightarrow> ?cost c < ?cost c'"
        using some True by fastforce
      then have "\<exists>pre c1 post. tried @ [c] = pre @ c1 # post \<and> fst c = fst c1 \<and> int (snd c) = int (snd c1)
          \<and> ?ok c1 \<and> ?cost c = ?cost c1 \<and> ?cost c < ?m0
          \<and> (\<forall>c' \<in> set pre. ?ok c' \<longrightarrow> ?cost c < ?cost c')
          \<and> (\<forall>c' \<in> set post. ?ok c' \<longrightarrow> ?cost c \<le> ?cost c')"
        using True some(6)
        by (intro exI[of _ tried] exI[of _ c] exI[of _ "[]"]) simp
      then show ?thesis
        unfolding search_inv_def st cand_step_def using True by simp
    next
      case False
      then have same: "cand_step pf b wk c st = st" by (simp add: cand_step_def st)
      have "\<exists>pre c1 post'. tried @ [c] = pre @ c1 # post' \<and> ax = fst c1 \<and> si = int (snd c1)
          \<and> ?ok c1 \<and> mc = ?cost c1 \<and> mc < ?m0
          \<and> (\<forall>c' \<in> set pre. ?ok c' \<longrightarrow> mc < ?cost c')
          \<and> (\<forall>c' \<in> set post'. ?ok c' \<longrightarrow> mc \<le> ?cost c')"
        using some False
        by (intro exI[of _ pre] exI[of _ c0] exI[of _ "post @ [c]"]) auto
      then show ?thesis
        unfolding same unfolding search_inv_def st by simp
    qed
  qed
qed

lemma search_inv_fold:
  "search_inv pf b wk cs (fold (cand_step pf b wk) cs (baseline pf b wk, - 1, - 1))"
proof (induction cs rule: rev_induct)
  case Nil
  show ?case by (simp add: search_inv_def)
next
  case (snoc c cs)
  then show ?case by (simp add: search_inv_step)
qed


lemma candidates_axis: "c \<in> set candidates \<Longrightarrow> fst c \<noteq> - 1"
  by (auto simp: candidates_def)

lemma bucket_index_exact:
  "bucket_index exact v start rng = clamp \<lfloor>(v - start) * 32 / rng\<rfloor> 0 31"
  by (simp add: bucket_index_def exact_def BUCKETS_def)


section \<open>The work list of a mesh\<close>

lemma face_step_boxes:
  assumes "vertex_at vertices f1 = Some point1" "vertex_at vertices f2 = Some point2"
    "vertex_at vertices f3 = Some point3"
  shows "map bb (work (face_step pf f1 f2 f3 point1 point2 point3 s))
     = map bb (work s) @ map (face_box vertices) (filter (\<lambda>f. \<not> degenerate_face pf vertices f) [(f1, f2, f3)])"
  by (cases "degenerate pf point1 point2 point3")
     (simp_all add: assms face_step_degenerate face_step_retained degenerate_face_def face_box_def)

lemma buildTree_loop_boxes:
  "buildTree_loop pf vertices faces s = Inr s' \<Longrightarrow>
     map bb (work s') = map bb (work s)
        @ map (face_box vertices) (filter (\<lambda>f. \<not> degenerate_face pf vertices f) (face_list faces))"
proof (induction pf vertices faces s rule: buildTree_loop.induct)
  case (1 pf vertices f1 f2 f3 faces s)
  from "1.prems" obtain p1 p2 p3 where p: "vertex_at vertices f1 = Some p1" "vertex_at vertices f2 = Some p2"
    "vertex_at vertices f3 = Some p3"
    by (auto split: option.splits)
  let ?s1 = "face_step pf f1 f2 f3 p1 p2 p3 s"
  from "1.prems" have r: "buildTree_loop pf vertices faces ?s1 = Inr s'" by (simp add: p)
  note ih = "1.IH"[OF p r]
  show ?case
    unfolding ih face_step_boxes[OF p, of pf s] by simp
next
  case (2 pf vertices s)
  then show ?case by simp
qed simp_all

lemma work_of_loop_inv:
  assumes "loop_inv s"
  shows "work s = work_of (map bb (work s))"
proof (rule nth_equalityI)
  show "length (work s) = length (work_of (map bb (work s)))" by (simp add: work_of_def)
next
  fix i assume i: "i < length (work s)"
  from assms have t: "map triangle (work s) = [0..<length (m_triangles (this s))]"
    by (simp add: loop_inv_def)
  from arg_cong[OF t, of length] have len: "length (work s) = length (m_triangles (this s))" by simp
  have "triangle (work s ! i) = map triangle (work s) ! i" using i by simp
  also have "\<dots> = i" unfolding t using i len by simp
  finally have ti: "triangle (work s ! i) = i" .
  have "work_of (map bb (work s)) ! i = \<lparr>bb = bb (work s ! i), triangle = i\<rparr>"
    using i by (simp add: work_of_def)
  also have "\<dots> = work s ! i" using ti by simp
  finally show "work s ! i = work_of (map bb (work s)) ! i" by simp
qed

lemma loop_result_work:
  assumes "loop_result pf vertices faces m_root t0 s"
  shows "work s = work_of (map (face_box vertices)
            (filter (\<lambda>f. \<not> degenerate_face pf vertices f) (face_list faces)))"
proof -
  from assms have l: "buildTree_loop pf vertices faces loop_start = Inr s" and inv: "loop_inv s"
    unfolding loop_result_def by blast+
  have "map bb (work s) = map (face_box vertices)
            (filter (\<lambda>f. \<not> degenerate_face pf vertices f) (face_list faces))"
    using buildTree_loop_boxes[OF l] by (simp add: loop_start_def)
  with work_of_loop_inv[OF inv] show ?thesis by simp
qed

lemma find_split_search_inv:
  assumes "\<forall>a \<in> set wk. valid (bb a)" "length wk < 2 ^ 31"
  shows "search_inv pf b wk candidates (find_split pf b wk)"
  unfolding find_split_cand_steps[OF assms] by (rule search_inv_fold)

lemma search_inv_none:
  assumes "search_inv pf b wk tried (mc, si, - 1)" "\<forall>c \<in> set tried. fst c \<noteq> - 1"
  shows "mc = baseline pf b wk \<and> si = - 1
     \<and> (\<forall>c \<in> set tried. candidate_ok pf b wk c \<longrightarrow> baseline pf b wk \<le> candidate_cost pf b wk c)"
proof -
  have "\<not> (\<exists>pre c post. tried = pre @ c # post \<and> - 1 = fst c \<and> si = int (snd c)
        \<and> candidate_ok pf b wk c \<and> mc = candidate_cost pf b wk c \<and> mc < baseline pf b wk
        \<and> (\<forall>c' \<in> set pre. candidate_ok pf b wk c' \<longrightarrow> mc < candidate_cost pf b wk c')
        \<and> (\<forall>c' \<in> set post. candidate_ok pf b wk c' \<longrightarrow> mc \<le> candidate_cost pf b wk c'))"
  proof
    assume "\<exists>pre c post. tried = pre @ c # post \<and> - 1 = fst c \<and> si = int (snd c)
        \<and> candidate_ok pf b wk c \<and> mc = candidate_cost pf b wk c \<and> mc < baseline pf b wk
        \<and> (\<forall>c' \<in> set pre. candidate_ok pf b wk c' \<longrightarrow> mc < candidate_cost pf b wk c')
        \<and> (\<forall>c' \<in> set post. candidate_ok pf b wk c' \<longrightarrow> mc \<le> candidate_cost pf b wk c')"
    then obtain pre c post where t: "tried = pre @ c # post" and f: "- 1 = fst c" by blast
    from t have "c \<in> set tried" by simp
    with assms(2) f show False by auto
  qed
  with assms(1) show ?thesis unfolding search_inv_def prod.case by blast
qed

lemma find_split_finds:
  assumes av: "\<forall>a \<in> set wk. valid (bb a)" and n: "length wk < 2 ^ 31"
    and c: "c \<in> set candidates" "candidate_ok pf b wk c" "candidate_cost pf b wk c < baseline pf b wk"
    and fs: "find_split pf b wk = (minCost, bestSplitIdx, bestAxis)"
  shows "bestAxis \<noteq> - 1"
proof
  assume m: "bestAxis = - 1"
  have si: "search_inv pf b wk candidates (minCost, bestSplitIdx, - 1)"
    using find_split_search_inv[OF av n, of pf b] unfolding fs m .
  have "\<forall>c \<in> set candidates. fst c \<noteq> - 1" using candidates_axis by blast
  from search_inv_none[OF si this] c(1,2) have "baseline pf b wk \<le> candidate_cost pf b wk c"
    by blast
  with c(3) show False by simp
qed

section \<open>An example with an inner node\<close>

text \<open>
  For evaluation: the length of the zero vector is computed; the square root of another
  number is not, and evaluation stops there.
\<close>

lemma euclid_code [code]:
  "euclid a = (if vx a * vx a + vy a * vy a + vz a * vz a = 0 then 0
               else Code.abort (STR ''euclid: square root'') (\<lambda>_. euclid a))"
  by (simp add: euclid_def)

lemma exact_sel:
  "vsub exact a b = Vec3 (vx a - vx b) (vy a - vy b) (vz a - vz b)"
  "cross exact a b = Vec3 (vy a * vz b - vz a * vy b) (vz a * vx b - vx a * vz b) (vx a * vy b - vy a * vx b)"
  "vlength exact a = sqrt (vx a * vx a + vy a * vy a + vz a * vz a)"
  "getCentroid exact c = Vec3 ((vx (m_min c) + vx (m_max c)) / 2) ((vy (m_min c) + vy (m_max c)) / 2)
                              ((vz (m_min c) + vz (m_max c)) / 2)"
  "getXSize exact c = vx (m_max c) - vx (m_min c)"
  "getYSize exact c = vy (m_max c) - vy (m_min c)"
  "getZSize exact c = vz (m_max c) - vz (m_min c)"
  "fadd exact x y = x + y"
  "fsub exact x y = x - y"
  "fmul exact x y = x * y"
  "fdiv exact x y = x / y"
  "ffloor exact x = \<lfloor>x\<rfloor>"
  "fofint exact k = real_of_int k"
  by (simp_all add: exact_def euclid_def)

lemma strip_vertex_at:
  "vertex_at strip_vertices 0 = Some (Vec3 0 0 0)"
  "vertex_at strip_vertices 1 = Some (Vec3 2 0 0)"
  "vertex_at strip_vertices 2 = Some (Vec3 4 0 0)"
  "vertex_at strip_vertices 3 = Some (Vec3 26 0 0)"
  "vertex_at strip_vertices 4 = Some (Vec3 28 0 0)"
  "vertex_at strip_vertices 5 = Some (Vec3 30 0 0)"
  "vertex_at strip_vertices 6 = Some (Vec3 32 0 0)"
  "vertex_at strip_vertices 7 = Some (Vec3 0 1 0)"
  "vertex_at strip_vertices 8 = Some (Vec3 2 1 0)"
  "vertex_at strip_vertices 9 = Some (Vec3 26 1 0)"
  "vertex_at strip_vertices 10 = Some (Vec3 28 1 0)"
  "vertex_at strip_vertices 11 = Some (Vec3 30 1 0)"
  by (simp_all add: vertex_at_def strip_vertices_def)

lemma strip_wf: "wf_mesh strip_vertices strip_faces"
  by (simp add: wf_mesh_def strip_faces_def strip_vertex_at)

lemma strip_retained:
  "filter (\<lambda>f. \<not> degenerate_face exact strip_vertices f) (face_list strip_faces)
     = [(0, 1, 7), (1, 2, 8), (3, 4, 9), (4, 5, 10), (5, 6, 11)]"
  by (simp add: strip_faces_def degenerate_face_def strip_vertex_at degenerate_def exact_sel)

lemma strip_face_boxes:
  "map (face_box strip_vertices) [(0, 1, 7), (1, 2, 8), (3, 4, 9), (4, 5, 10), (5, 6, 11)]
     = [strip_box 0, strip_box 2, strip_box 26, strip_box 28, strip_box 30]"
  by (simp add: face_box_def strip_vertex_at face_bb_def expand_point_def BoundingBox_new_def strip_box_def)

lemma strip_work_of:
  "work_of [strip_box 0, strip_box 2, strip_box 26, strip_box 28, strip_box 30] = strip_work"
proof -
  have "[0..<5] = [0, 1, 2, 3, 4::nat]" by (simp add: eval_nat_numeral)
  then show ?thesis by (simp add: work_of_def strip_work_def)
qed

lemma strip_slice_bb:
  "slice_bb strip_work = \<lparr>valid = True, m_min = Vec3 0 0 0, m_max = Vec3 32 1 0\<rparr>"
  by (simp add: slice_bb_def strip_work_def strip_box_def expand_box_def BoundingBox_new_def)

lemma strip_index:
  "item_index exact 0 0 32 \<lparr>bb = strip_box 0, triangle = k\<rparr> = 1"
  "item_index exact 0 0 32 \<lparr>bb = strip_box 2, triangle = k\<rparr> = 3"
  "item_index exact 0 0 32 \<lparr>bb = strip_box 26, triangle = k\<rparr> = 27"
  "item_index exact 0 0 32 \<lparr>bb = strip_box 28, triangle = k\<rparr> = 29"
  "item_index exact 0 0 32 \<lparr>bb = strip_box 30, triangle = k\<rparr> = 31"
  by (simp_all add: item_index_def bucket_index_exact axis_coord_def exact_sel strip_box_def clamp_def)

lemma strip_left:
  "left_items exact (slice_bb strip_work) strip_work (0, 16)
     = [\<lparr>bb = strip_box 0, triangle = 0\<rparr>, \<lparr>bb = strip_box 2, triangle = 1\<rparr>]"
  unfolding strip_slice_bb
  by (simp add: left_items_def axis_start_def axis_extent_def axis_coord_def getMin_def getMax_def
        strip_work_def strip_index exact_sel)

lemma strip_right:
  "right_items exact (slice_bb strip_work) strip_work (0, 16)
     = [\<lparr>bb = strip_box 26, triangle = 2\<rparr>, \<lparr>bb = strip_box 28, triangle = 3\<rparr>,
        \<lparr>bb = strip_box 30, triangle = 4\<rparr>]"
  unfolding strip_slice_bb
  by (simp add: right_items_def axis_start_def axis_extent_def axis_coord_def getMin_def getMax_def
        strip_work_def strip_index exact_sel)

lemma strip_candidate:
  "(0, 16) \<in> set candidates"
  "candidate_ok exact (slice_bb strip_work) strip_work (0, 16)"
  "candidate_cost exact (slice_bb strip_work) strip_work (0, 16) = 26"
  "baseline exact (slice_bb strip_work) strip_work = 160"
proof -
  show "(0, 16) \<in> set candidates" by (simp add: candidates_def)
  have sk: "\<not> axis_skipped exact (slice_bb strip_work) 0"
    unfolding strip_slice_bb
    by (simp add: axis_skipped_def axis_extent_def axis_coord_def getMin_def getMax_def exact_sel)
  have l: "slice_bb [\<lparr>bb = strip_box 0, triangle = 0\<rparr>, \<lparr>bb = strip_box 2, triangle = 1\<rparr>]
      = \<lparr>valid = True, m_min = Vec3 0 0 0, m_max = Vec3 4 1 0\<rparr>"
    by (simp add: slice_bb_def strip_box_def expand_box_def BoundingBox_new_def)
  have r: "slice_bb [\<lparr>bb = strip_box 26, triangle = 2\<rparr>, \<lparr>bb = strip_box 28, triangle = 3\<rparr>,
        \<lparr>bb = strip_box 30, triangle = 4\<rparr>]
      = \<lparr>valid = True, m_min = Vec3 26 0 0, m_max = Vec3 32 1 0\<rparr>"
    by (simp add: slice_bb_def strip_box_def expand_box_def BoundingBox_new_def)
  show "candidate_ok exact (slice_bb strip_work) strip_work (0, 16)"
    unfolding candidate_ok_def strip_left strip_right l r using sk by (simp add: isValid_def)
  show "candidate_cost exact (slice_bb strip_work) strip_work (0, 16) = 26"
    unfolding candidate_cost_def strip_left strip_right l r by (simp add: surface_def exact_sel)
  show "baseline exact (slice_bb strip_work) strip_work = 160"
    unfolding baseline_def strip_slice_bb by (simp add: surface_def exact_sel strip_work_def)
qed

lemma strip_root_inner:
  assumes "buildTree exact strip_vertices strip_faces BVHTree_new = Inr (m_root, t0)"
  shows "\<exists>b l r. m_root = BVHInner b l r"
proof -
  from buildTree_facts[OF assms] obtain s
    where lr: "loop_result exact strip_vertices strip_faces m_root t0 s" ..
  have w: "work s = strip_work"
    unfolding loop_result_work[OF lr] strip_retained strip_face_boxes strip_work_of ..
  from lr have m: "m_root = fst (buildTreeRecursive exact strip_work 0 0)"
    unfolding loop_result_def w by blast
  have big: "\<not> length strip_work \<le> 4" by (simp add: strip_work_def)
  have av: "\<forall>a \<in> set strip_work. valid (bb a)" by (simp add: strip_work_def strip_box_def)
  have n: "length strip_work < 2 ^ 31" by (simp add: strip_work_def)
  obtain minCost bestSplitIdx bestAxis
    where fs: "find_split exact (slice_bb strip_work) strip_work = (minCost, bestSplitIdx, bestAxis)"
    by (cases "find_split exact (slice_bb strip_work) strip_work") auto
  have ax: "bestAxis \<noteq> - 1"
    by (rule find_split_finds[OF av n strip_candidate(1,2) _ fs]) (simp add: strip_candidate)
  obtain wl wr where part: "std_partition exact (pred exact (slice_bb strip_work) bestAxis bestSplitIdx) strip_work = (wl, wr)"
    by (cases "std_partition exact (pred exact (slice_bb strip_work) bestAxis bestSplitIdx) strip_work") auto
  show ?thesis
    unfolding m buildTreeRecursive_split[OF big fs ax part]
    by (simp split: prod.splits)
qed

theorem built_boxes_are_unions_witness:
  "\<exists>m_root t0. buildTree exact strip_vertices strip_faces BVHTree_new = Inr (m_root, t0)
     \<and> (\<exists>b l r. m_root = BVHInner b l r \<and> b = expand_box (node_bb l) (node_bb r))
     \<and> boxes_consistent (\<lambda>i. tri_bb (m_triangles t0 ! i)) m_root"
proof -
  from buildTree_total[OF strip_wf] obtain m_root t0
    where b: "buildTree exact strip_vertices strip_faces BVHTree_new = Inr (m_root, t0)" by blast
  note c = built_boxes_are_unions[OF b]
  from strip_root_inner[OF b] obtain bx l r where m: "m_root = BVHInner bx l r" by blast
  from c have "bx = expand_box (node_bb l) (node_bb r)" unfolding m by simp
  with m have "\<exists>b l r. m_root = BVHInner b l r \<and> b = expand_box (node_bb l) (node_bb r)" by blast
  with b c show ?thesis by blast
qed

section \<open>An example with a leaf of 2^31 triangles\<close>

lemma big_vertex_at:
  "vertex_at big_vertices 0 = Some (Vec3 0 0 0)"
  "vertex_at big_vertices 1 = Some (Vec3 1 0 0)"
  "vertex_at big_vertices 2 = Some (Vec3 0 1 0)"
  "vertex_at big_vertices 3 = Some (Vec3 31 31 0)"
  "vertex_at big_vertices 4 = Some (Vec3 33 31 0)"
  "vertex_at big_vertices 5 = Some (Vec3 31 33 0)"
  "vertex_at big_vertices 6 = Some (Vec3 63 63 0)"
  "vertex_at big_vertices 7 = Some (Vec3 64 63 0)"
  "vertex_at big_vertices 8 = Some (Vec3 63 64 0)"
  by (simp_all add: vertex_at_def big_vertices_def)

lemma big_wf: "wf_mesh big_vertices ([0, 1, 2] @ concat (replicate n [3, 4, 5]) @ [6, 7, 8])"
proof -
  have "length (concat (replicate n [3, 4, 5 :: u32])) = 3 * n"
    by (induction n) simp_all
  moreover have "list_all (\<lambda>f. vertex_at big_vertices f \<noteq> None) (concat (replicate n [3, 4, 5]))"
    by (induction n) (simp_all add: big_vertex_at)
  ultimately show ?thesis by (simp add: wf_mesh_def big_vertex_at)
qed

lemma face_list_replicate:
  "face_list (concat (replicate n [a, b, c]) @ rest) = replicate n (a, b, c) @ face_list rest"
  by (induction n) simp_all

lemma big_face_list:
  "face_list ([0, 1, 2] @ concat (replicate n [3, 4, 5]) @ [6, 7, 8])
     = (0, 1, 2) # replicate n (3, 4, 5) @ [(6, 7, 8)]"
  using face_list_replicate[of n 3 4 5 "[6, 7, 8]"] by simp

lemma big_nondegenerate:
  "\<not> degenerate_face exact big_vertices (0, 1, 2)"
  "\<not> degenerate_face exact big_vertices (3, 4, 5)"
  "\<not> degenerate_face exact big_vertices (6, 7, 8)"
  by (simp_all add: degenerate_face_def big_vertex_at degenerate_def exact_sel)

lemma big_face_box:
  "face_box big_vertices (0, 1, 2) = corner_box 0 1"
  "face_box big_vertices (3, 4, 5) = corner_box 31 33"
  "face_box big_vertices (6, 7, 8) = corner_box 63 64"
  by (simp_all add: face_box_def big_vertex_at face_bb_def expand_point_def BoundingBox_new_def corner_box_def)

lemma big_work:
  assumes "loop_result exact big_vertices ([0, 1, 2] @ concat (replicate n [3, 4, 5]) @ [6, 7, 8]) m_root t0 s"
  shows "work s = work_of (big_boxes n)"
  unfolding loop_result_work[OF assms] big_face_list
  by (simp add: big_nondegenerate big_face_box big_boxes_def)

lemma work_of_maps:
  "map bb (work_of bs) = bs"
  "map triangle (work_of bs) = [0..<length bs]"
  "length (work_of bs) = length bs"
proof -
  show "map bb (work_of bs) = bs"
    by (rule nth_equalityI) (simp_all add: work_of_def)
  show "map triangle (work_of bs) = [0..<length bs]"
    by (rule nth_equalityI) (simp_all add: work_of_def)
  show "length (work_of bs) = length bs"
    by (simp add: work_of_def)
qed

lemma expand_box_twice: "expand_box (expand_box b c) c = expand_box b c"
  by (simp add: expand_box_def)

lemma fold_expand_replicate:
  "fold (\<lambda>c b. expand_box b c) (replicate n c) (expand_box b c) = expand_box b c"
  by (induction n) (simp_all add: expand_box_twice del: fold_replicate)

lemma big_slice_bb: "slice_bb (work_of (big_boxes n)) = corner_box 0 64"
proof -
  have e: "expand_box (expand_box BoundingBox_new (corner_box 0 1)) (corner_box 31 33) = corner_box 0 33"
    by (simp add: expand_box_def corner_box_def BoundingBox_new_def)
  have "union_boxes (big_boxes n)
      = expand_box (fold (\<lambda>c b. expand_box b c) (replicate n (corner_box 31 33))
            (expand_box BoundingBox_new (corner_box 0 1))) (corner_box 63 64)"
    by (simp add: union_boxes_def big_boxes_def)
  also have "\<dots> = corner_box 0 64"
  proof (cases n)
    case 0
    then show ?thesis by (simp add: expand_box_def corner_box_def BoundingBox_new_def)
  next
    case (Suc k)
    have "fold (\<lambda>c b. expand_box b c) (replicate n (corner_box 31 33))
            (expand_box BoundingBox_new (corner_box 0 1)) = corner_box 0 33"
      unfolding Suc replicate_Suc fold_simps e[symmetric]
      by (rule fold_expand_replicate)
    then show ?thesis by (simp add: expand_box_def corner_box_def)
  qed
  finally show ?thesis by (simp add: slice_bb_union work_of_maps)
qed

lemma big_valid: "\<forall>a \<in> set (work_of (big_boxes n)). valid (bb a)"
proof -
  have "\<forall>c \<in> set (map bb (work_of (big_boxes n))). valid c"
    unfolding work_of_maps by (auto simp: big_boxes_def corner_box_def)
  then show ?thesis by simp
qed

lemma corner_index:
  assumes "axis = 0 \<or> axis = 1"
  shows "bucket_index exact (axis_coord axis (getCentroid exact (corner_box 0 1))) 0 64 = 0"
    and "bucket_index exact (axis_coord axis (getCentroid exact (corner_box 31 33))) 0 64 = 16"
    and "bucket_index exact (axis_coord axis (getCentroid exact (corner_box 63 64))) 0 64 = 31"
  using assms by (auto simp: bucket_index_exact axis_coord_def exact_sel corner_box_def clamp_def)

lemma count_by_box:
  "length (filter (\<lambda>a. R (bb a)) (work_of bs)) = length (filter R bs)"
proof -
  have "length (filter R (map bb (work_of bs))) = length (filter (\<lambda>a. R (bb a)) (work_of bs))"
    by (simp add: comp_def)
  then show ?thesis unfolding work_of_maps by simp
qed

lemma big_sides:
  assumes "axis = 0 \<or> axis = 1"
  shows "length (left_items exact (corner_box 0 64) (work_of (big_boxes n)) (axis, i))
           = (if 0 < i then 1 else 0) + (if 16 < i then n else 0) + (if 31 < i then 1 else 0)"
    and "length (right_items exact (corner_box 0 64) (work_of (big_boxes n)) (axis, i))
           = (if i \<le> 0 then 1 else 0) + (if i \<le> 16 then n else 0) + (if i \<le> 31 then 1 else 0)"
proof -
  have st: "axis_start (corner_box 0 64) axis = 0" "axis_extent exact (corner_box 0 64) axis = 64"
    using assms by (auto simp: axis_start_def axis_extent_def axis_coord_def getMin_def getMax_def
        exact_sel corner_box_def)
  show "length (left_items exact (corner_box 0 64) (work_of (big_boxes n)) (axis, i))
           = (if 0 < i then 1 else 0) + (if 16 < i then n else 0) + (if 31 < i then 1 else 0)"
    unfolding left_items_def fst_conv snd_conv st item_index_def
      count_by_box[of "\<lambda>c. bucket_index exact (axis_coord axis (getCentroid exact c)) 0 64 < int i"]
    by (simp add: big_boxes_def filter_replicate corner_index[OF assms])
  show "length (right_items exact (corner_box 0 64) (work_of (big_boxes n)) (axis, i))
           = (if i \<le> 0 then 1 else 0) + (if i \<le> 16 then n else 0) + (if i \<le> 31 then 1 else 0)"
    unfolding right_items_def fst_conv snd_conv st item_index_def
      count_by_box[of "\<lambda>c. int i \<le> bucket_index exact (axis_coord axis (getCentroid exact c)) 0 64"]
    by (simp add: big_boxes_def filter_replicate corner_index[OF assms])
qed

lemma split_step_small_side:
  assumes bf: "fold (bucket_step pf axis (axis_start b axis) (axis_extent pf b axis)) wk
        (replicate BUCKETS BoundingBox_new, replicate BUCKETS 0) = (bs, cs)"
    and av: "\<forall>a \<in> set wk. valid (bb a)"
    and i: "i \<le> 32"
    and sm: "length (left_items pf b wk (axis, i)) \<le> 1 \<or> length (right_items pf b wk (axis, i)) \<le> 1"
  shows "split_step pf bs cs axis i st = st"
proof -
  obtain mc si ax where st: "st = (mc, si, ax)" by (cases st) auto
  note s = sides_exact[OF bf av i]
  have le: "sint (of_nat k :: i32) \<le> 1" if "k \<le> 1" for k
    using that sint_of_nat32[of k] by simp
  from sm have "sint (of_nat (length (left_items pf b wk (axis, i))) :: i32) \<le> 1
      \<or> sint (of_nat (length (right_items pf b wk (axis, i))) :: i32) \<le> 1"
    using le by blast
  then show ?thesis
    unfolding split_step_def st s prod.case by auto
qed

lemma axis_step_small_sides:
  assumes av: "\<forall>a \<in> set wk. valid (bb a)"
    and sm: "axis_skipped pf b axis \<or> (\<forall>i. 1 \<le> i \<and> i < 32 \<longrightarrow>
        length (left_items pf b wk (axis, i)) \<le> 1 \<or> length (right_items pf b wk (axis, i)) \<le> 1)"
  shows "axis_step pf b wk axis st = st"
proof (cases "axis_skipped pf b axis")
  case True
  then show ?thesis by (simp add: axis_step_def axis_skipped_def axis_extent_def Let_def)
next
  case False
  obtain bs cs where bf: "fold (bucket_step pf axis (axis_start b axis) (axis_extent pf b axis)) wk
        (replicate BUCKETS BoundingBox_new, replicate BUCKETS 0) = (bs, cs)"
    by (cases "fold (bucket_step pf axis (axis_start b axis) (axis_extent pf b axis)) wk
        (replicate BUCKETS BoundingBox_new, replicate BUCKETS 0)") auto
  have a: "axis_step pf b wk axis st = fold (split_step pf bs cs axis) [1..<BUCKETS] st"
    using False bf
    by (simp add: axis_step_def axis_skipped_def axis_extent_def axis_start_def Let_def)
  have "\<forall>i \<in> set is. 1 \<le> i \<and> i < 32 \<Longrightarrow> fold (split_step pf bs cs axis) is st = st" for "is"
  proof (induction "is")
    case Nil
    show ?case by simp
  next
    case (Cons i "is")
    from Cons.prems have i: "1 \<le> i \<and> i < 32" by simp
    with sm False have "length (left_items pf b wk (axis, i)) \<le> 1 \<or> length (right_items pf b wk (axis, i)) \<le> 1"
      by blast
    from split_step_small_side[OF bf av _ this, of st] i have "split_step pf bs cs axis i st = st" by simp
    with Cons show ?case by simp
  qed
  from this[of "[1..<32]"] show ?thesis unfolding a BUCKETS_def by simp
qed

lemma big_no_split:
  "find_split exact (corner_box 0 64) (work_of (big_boxes n))
     = (baseline exact (corner_box 0 64) (work_of (big_boxes n)), - 1, - 1)"
proof -
  let ?b = "corner_box 0 64" and ?wk = "work_of (big_boxes n)"
  have xy: "axis_step exact ?b ?wk axis st = st" if "axis = 0 \<or> axis = 1" for axis st
  proof (rule axis_step_small_sides[OF big_valid], rule disjI2, intro allI impI)
    fix i :: nat assume "1 \<le> i \<and> i < 32"
    then show "length (left_items exact ?b ?wk (axis, i)) \<le> 1 \<or> length (right_items exact ?b ?wk (axis, i)) \<le> 1"
      unfolding big_sides[OF that] by (cases "i \<le> 16") simp_all
  qed
  have "axis_skipped exact ?b 2"
    by (simp add: axis_skipped_def axis_extent_def axis_coord_def getMin_def getMax_def exact_sel corner_box_def)
  then have z: "axis_step exact ?b ?wk 2 st = st" for st
    by (intro axis_step_small_sides[OF big_valid] disjI1)
  show ?thesis
    by (simp add: find_split_def baseline_def Let_def xy z)
qed

lemma big_leaf:
  "buildTreeRecursive exact (work_of (big_boxes n)) 0 0 = (BVHLeaf (corner_box 0 64) [0..<n + 2], 0)"
  using buildTreeRecursive_no_split[of exact "work_of (big_boxes n)" _ _ 0 0]
  unfolding big_slice_bb big_no_split work_of_maps
  by (simp add: big_boxes_def)

lemma big_built:
  "\<exists>t0. buildTree exact big_vertices big_faces BVHTree_new = Inr (BVHLeaf (corner_box 0 64) [0..<2 ^ 31], t0)
      \<and> length (m_triangles t0) = 2 ^ 31 \<and> fresh t0"
proof -
  from buildTree_total[OF big_wf, of exact "2 ^ 31 - 2"] obtain m_root t0
    where b: "buildTree exact big_vertices big_faces BVHTree_new = Inr (m_root, t0)"
    unfolding big_faces_def by blast
  from buildTree_facts[OF b] obtain s where lr: "loop_result exact big_vertices big_faces m_root t0 s" ..
  then have m: "m_root = fst (buildTreeRecursive exact (work s) 0 0)"
    and len: "length (work s) = length (m_triangles t0)"
    unfolding loop_result_def by blast+
  have w: "work s = work_of (big_boxes (2 ^ 31 - 2))"
    using lr unfolding big_faces_def by (rule big_work)
  have n: "(2::nat) ^ 31 - 2 + 2 = 2 ^ 31" by simp
  have "m_root = BVHLeaf (corner_box 0 64) [0..<2 ^ 31]"
    unfolding m w big_leaf n by simp
  moreover have "length (m_triangles t0) = 2 ^ 31"
    unfolding len[symmetric] w work_of_maps by (simp add: big_boxes_def)
  ultimately show ?thesis using b buildTree_fresh[OF b] by blast
qed

lemma big_word0: "(0x80000000 :: u32) OR of_nat (length [0..<2 ^ 31]) = 0x80000000"
  by simp

lemma big_flat:
  "\<exists>t0. buildTree exact big_vertices big_faces BVHTree_new = Inr (BVHLeaf (corner_box 0 64) [0..<2 ^ 31], t0)
     \<and> BVHTree_ctor exact big_vertices big_faces = Inr (createCFTree (BVHLeaf (corner_box 0 64) [0..<2 ^ 31]) t0)
     \<and> m_indexesOrTrilists (createCFTree (BVHLeaf (corner_box 0 64) [0..<2 ^ 31]) t0) = [0x80000000, 0, 0, 0]
     \<and> m_triIndexList (createCFTree (BVHLeaf (corner_box 0 64) [0..<2 ^ 31]) t0) = map of_nat [0..<2 ^ 31]
     \<and> length (m_triangles (createCFTree (BVHLeaf (corner_box 0 64) [0..<2 ^ 31]) t0)) = 2 ^ 31"
proof -
  from big_built obtain t0
    where b: "buildTree exact big_vertices big_faces BVHTree_new = Inr (BVHLeaf (corner_box 0 64) [0..<2 ^ 31], t0)"
      and l: "length (m_triangles t0) = 2 ^ 31" and fr: "fresh t0" by blast
  note f = createCFTree_fresh[OF fr, of "BVHLeaf (corner_box 0 64) [0..<2 ^ 31]"]
  have c: "BVHTree_ctor exact big_vertices big_faces = Inr (createCFTree (BVHLeaf (corner_box 0 64) [0..<2 ^ 31]) t0)"
    by (simp add: BVHTree_ctor_def b)
  have w: "m_indexesOrTrilists (createCFTree (BVHLeaf (corner_box 0 64) [0..<2 ^ 31]) t0) = [0x80000000, 0, 0, 0]"
    unfolding f flat_words.simps big_word0 by simp
  have t: "m_triIndexList (createCFTree (BVHLeaf (corner_box 0 64) [0..<2 ^ 31]) t0) = map of_nat [0..<2 ^ 31]"
    unfolding f by simp
  have n: "length (m_triangles (createCFTree (BVHLeaf (corner_box 0 64) [0..<2 ^ 31]) t0)) = 2 ^ 31"
    unfolding f by (rule l)
  from b c w t n show ?thesis by blast
qed

lemma leaf_count_top: "leaf_count 0x80000000 = 0"
  by (simp add: leaf_count_def)

text \<open>
  The claim C1 as stated ("for every input mesh") fails on this mesh: construction
  succeeds, the root is a leaf of \<open>2^31\<close> triangle indices, and the bits of its word0
  below the leaf flag hold the count 0.
\<close>

theorem leaf_count_lost:
  "\<not> isl (BVHTree_ctor exact big_vertices big_faces)
   \<and> fst (projr (buildTree exact big_vertices big_faces BVHTree_new)) = BVHLeaf (corner_box 0 64) [0..<2 ^ 31]
   \<and> length [0..<(2::nat) ^ 31] = 2 ^ 31
   \<and> m_indexesOrTrilists (projr (BVHTree_ctor exact big_vertices big_faces)) = [0x80000000, 0, 0, 0]
   \<and> leaf_flag 0x80000000
   \<and> leaf_count 0x80000000 = 0"
proof -
  from big_flat obtain t0
    where b: "buildTree exact big_vertices big_faces BVHTree_new = Inr (BVHLeaf (corner_box 0 64) [0..<2 ^ 31], t0)"
      and c: "BVHTree_ctor exact big_vertices big_faces = Inr (createCFTree (BVHLeaf (corner_box 0 64) [0..<2 ^ 31]) t0)"
      and w: "m_indexesOrTrilists (createCFTree (BVHLeaf (corner_box 0 64) [0..<2 ^ 31]) t0) = [0x80000000, 0, 0, 0]"
    by blast
  show ?thesis
    unfolding b c sum.sel fst_conv w
    by (simp add: leaf_count_top leaf_flag_def)
qed

text \<open>
  The claim C2 as stated fails on the same mesh: \<open>2^31\<close> triangles are retained and the
  triangle-index list holds them all, but the walk from flat index 0 reads the count 0
  at the root and visits none of them.
\<close>

theorem walk_misses_triangles:
  "\<not> isl (BVHTree_ctor exact big_vertices big_faces)
   \<and> length (m_triangles (projr (BVHTree_ctor exact big_vertices big_faces))) = 2 ^ 31
   \<and> m_triIndexList (projr (BVHTree_ctor exact big_vertices big_faces)) = map of_nat [0..<2 ^ 31]
   \<and> walk 1 (m_indexesOrTrilists (projr (BVHTree_ctor exact big_vertices big_faces)))
         (m_triIndexList (projr (BVHTree_ctor exact big_vertices big_faces))) 0 = Some []
   \<and> walk 2 (m_indexesOrTrilists (projr (BVHTree_ctor exact big_vertices big_faces)))
         (m_triIndexList (projr (BVHTree_ctor exact big_vertices big_faces))) 0 = Some []"
proof -
  from big_flat obtain t0
    where c: "BVHTree_ctor exact big_vertices big_faces = Inr (createCFTree (BVHLeaf (corner_box 0 64) [0..<2 ^ 31]) t0)"
      and w: "m_indexesOrTrilists (createCFTree (BVHLeaf (corner_box 0 64) [0..<2 ^ 31]) t0) = [0x80000000, 0, 0, 0]"
      and t: "m_triIndexList (createCFTree (BVHLeaf (corner_box 0 64) [0..<2 ^ 31]) t0) = map of_nat [0..<2 ^ 31]"
      and n: "length (m_triangles (createCFTree (BVHLeaf (corner_box 0 64) [0..<2 ^ 31]) t0)) = 2 ^ 31"
    by blast
  have k: "walk (Suc fuel) [0x80000000, 0, 0, 0] tri 0 = Some []" for fuel tri
    by (simp add: leaf_flag_def leaf_count_top)
  have "walk 1 [0x80000000, 0, 0, 0] (map of_nat [0..<2 ^ 31]) 0 = Some []"
    using k[of 0] by simp
  moreover have "2 = Suc 1" by simp
  then have "walk 2 [0x80000000, 0, 0, 0] (map of_nat [0..<2 ^ 31]) 0 = Some []"
    by (simp only: k)
  ultimately show ?thesis
    unfolding c sum.sel w t n by simp
qed

section \<open>The flat arrays of the example with an inner node\<close>

lemma strip_triangles:
  assumes "buildTree exact strip_vertices strip_faces BVHTree_new = Inr (m_root, t0)"
  shows "length (m_triangles t0) = 5"
proof -
  from buildTree_facts[OF assms] obtain s
    where lr: "loop_result exact strip_vertices strip_faces m_root t0 s" ..
  then have "map tri_indices (m_triangles t0)
      = filter (\<lambda>f. \<not> degenerate_face exact strip_vertices f) (face_list strip_faces)"
    unfolding loop_result_def by blast
  from arg_cong[OF this, of length] show ?thesis unfolding strip_retained by simp
qed

theorem flat_layout_witness:
  "\<exists>m_root t0 T. buildTree exact strip_vertices strip_faces BVHTree_new = Inr (m_root, t0)
     \<and> BVHTree_ctor exact strip_vertices strip_faces = Inr T
     \<and> length (m_triangles t0) < 2 ^ 31
     \<and> 0 < num_nodes m_root
     \<and> (\<exists>b l r. m_root = BVHInner b l r)
     \<and> length (m_limits T) = 6 * num_nodes m_root
     \<and> length (m_indexesOrTrilists T) = 4 * num_nodes m_root
     \<and> take 6 (m_limits T) = box_limits (node_bb m_root)
     \<and> (\<exists>w1 w2. take 4 (m_indexesOrTrilists T) = [0, w1, w2, 0]
            \<and> 0 < unat w1 \<and> unat w1 < num_nodes m_root
            \<and> 0 < unat w2 \<and> unat w2 < num_nodes m_root)"
proof -
  from buildTree_total[OF strip_wf] obtain m_root t0
    where b: "buildTree exact strip_vertices strip_faces BVHTree_new = Inr (m_root, t0)" by blast
  have c: "BVHTree_ctor exact strip_vertices strip_faces = Inr (createCFTree m_root t0)"
    by (simp add: BVHTree_ctor_def b)
  have n: "length (m_triangles t0) < 2 ^ 31" by (simp add: strip_triangles[OF b])
  have k: "0 < num_nodes m_root" by (rule num_nodes_pos)
  from strip_root_inner[OF b] obtain bx l r where m: "m_root = BVHInner bx l r" by blast
  note fl = flat_layout[OF b c n k]
  from fl have 1: "length (m_limits (createCFTree m_root t0)) = 6 * num_nodes m_root"
    and 2: "length (m_indexesOrTrilists (createCFTree m_root t0)) = 4 * num_nodes m_root"
    and 3: "take 6 (drop (6 * 0) (m_limits (createCFTree m_root t0))) = box_limits (node_bb (preorder m_root ! 0))"
    by blast+
  from 3 have 3: "take 6 (m_limits (createCFTree m_root t0)) = box_limits (node_bb m_root)"
    by (simp add: hd_preorder)
  have p: "preorder m_root ! 0 = BVHInner bx l r" unfolding m by simp
  from fl have "\<exists>w1 w2. take 4 (drop (4 * 0) (m_indexesOrTrilists (createCFTree m_root t0))) = [0, w1, w2, 0]
              \<and> preorder m_root ! unat w1 = l \<and> preorder m_root ! unat w2 = r
              \<and> 0 < unat w1 \<and> unat w1 < num_nodes m_root
              \<and> 0 < unat w2 \<and> unat w2 < num_nodes m_root"
    unfolding p BVHNode.case by blast
  then have 4: "\<exists>w1 w2. take 4 (m_indexesOrTrilists (createCFTree m_root t0)) = [0, w1, w2, 0]
            \<and> 0 < unat w1 \<and> unat w1 < num_nodes m_root
            \<and> 0 < unat w2 \<and> unat w2 < num_nodes m_root"
    by auto
  from m have 5: "\<exists>b l r. m_root = BVHInner b l r" by blast
  show ?thesis
    by (rule exI[of _ m_root], rule exI[of _ t0], rule exI[of _ "createCFTree m_root t0"])
       (intro conjI b c n k 1 2 3 4 5)
qed

theorem walk_visits_each_triangle_once_witness:
  "\<exists>m_root t0 T. buildTree exact strip_vertices strip_faces BVHTree_new = Inr (m_root, t0)
     \<and> BVHTree_ctor exact strip_vertices strip_faces = Inr T
     \<and> length (m_triangles t0) < 2 ^ 31
     \<and> (\<exists>b l r. m_root = BVHInner b l r)
     \<and> length (m_triangles T) = 5
     \<and> walk (num_nodes m_root) (m_indexesOrTrilists T) (m_triIndexList T) 0 = Some (m_triIndexList T)
     \<and> mset (m_triIndexList T) = mset (map of_nat [0..<length (m_triangles T)])
     \<and> distinct (m_triIndexList T)"
proof -
  from buildTree_total[OF strip_wf] obtain m_root t0
    where b: "buildTree exact strip_vertices strip_faces BVHTree_new = Inr (m_root, t0)" by blast
  have c: "BVHTree_ctor exact strip_vertices strip_faces = Inr (createCFTree m_root t0)"
    by (simp add: BVHTree_ctor_def b)
  have n: "length (m_triangles t0) < 2 ^ 31" by (simp add: strip_triangles[OF b])
  note w = walk_visits_each_triangle_once[OF b c n]
  have 1: "length (m_triangles (createCFTree m_root t0)) = 5"
    by (simp add: createCFTree_fresh[OF buildTree_fresh[OF b]] strip_triangles[OF b])
  from w have 2: "walk (num_nodes m_root) (m_indexesOrTrilists (createCFTree m_root t0))
      (m_triIndexList (createCFTree m_root t0)) 0 = Some (m_triIndexList (createCFTree m_root t0))"
    by blast
  from w have 3: "mset (m_triIndexList (createCFTree m_root t0))
      = mset (map of_nat [0..<length (m_triangles (createCFTree m_root t0))])"
    and 4: "distinct (m_triIndexList (createCFTree m_root t0))"
    by blast+
  note 5 = strip_root_inner[OF b]
  show ?thesis
    by (rule exI[of _ m_root], rule exI[of _ t0], rule exI[of _ "createCFTree m_root t0"])
       (intro conjI b c n 1 2 3 4 5)
qed

section \<open>The result of the split search\<close>








end
